theory Spec2Isabelle
  imports Main
begin

section \<open>Document identities, promises and outcomes\<close>

text \<open>
  A document identity is an already-resolved URL: a string compared by exact equality.
  The payloads of the pipeline stages (\<^verbatim>\<open>ParsedDocument\<close>, \<^verbatim>\<open>ScannedDocument\<close>,
  \<^verbatim>\<open>Document\<close>) are opaque to the cache; the type variable \<open>'v\<close> stands for them
  (TypeScript erases the type arguments of \<^verbatim>\<open>AsyncWorkCache<K, V>\<close> and
  \<^verbatim>\<open>Map<K, V>\<close> at run time).
\<close>

type_synonym doc_id = string

text \<open>
  An entry of a work cache is a \<^verbatim>\<open>Promise<V>\<close>. \<open>Deferred n\<close> is the promise backed by
  the \<open>n\<close>-th computation that a work cache started; it is shared by reference, and whether
  it has settled is recorded outside the entry. \<open>Resolved v\<close> is \<^verbatim>\<open>Promise.resolve(v)\<close>:
  a promise that is born settled with the value \<open>v\<close>.
\<close>

datatype 'v promise = Deferred nat | Resolved 'v

datatype 'v outcome = Success 'v | Failure string

section \<open>AsyncWorkCache\<close>

text \<open>Modelled from the spec: the class \<^verbatim>\<open>AsyncWorkCache\<close> is imported by
  \<^verbatim>\<open>analysis-cache.ts\<close> from \<^verbatim>\<open>./async-work-cache\<close>, which is missing; its contract is
  the Memoizing Work Cache of the specification, a mapping from a key to an asynchronous
  computation's eventual result. The entries of one instance are a map from keys to
  promises.\<close>

type_synonym ('k, 'v) AsyncWorkCache = "'k \<rightharpoonup> 'v promise"

text \<open>Modelled from the spec: the body of \<^verbatim>\<open>AsyncWorkCache.delete\<close> is missing;
  \<open>delete(key)\<close>: remove the entry.\<close>

definition wc_delete :: "'k \<Rightarrow> ('k, 'v) AsyncWorkCache \<Rightarrow> ('k, 'v) AsyncWorkCache" where
  "wc_delete key es = es(key := None)"

text \<open>Modelled from the spec: the body of \<^verbatim>\<open>AsyncWorkCache.clear\<close> is missing;
  \<open>clear()\<close>: remove all entries.\<close>

definition wc_clear :: "('k, 'v) AsyncWorkCache \<Rightarrow> ('k, 'v) AsyncWorkCache" where
  "wc_clear es = Map.empty"

text \<open>Modelled from the spec: the body of \<^verbatim>\<open>AsyncWorkCache.set\<close> is missing;
  \<open>set(key, value)\<close>: unconditionally install a resolved entry for \<open>key\<close>, replacing
  whatever was there.\<close>

definition wc_set :: "'k \<Rightarrow> 'v \<Rightarrow> ('k, 'v) AsyncWorkCache \<Rightarrow> ('k, 'v) AsyncWorkCache" where
  "wc_set key v es = es(key \<mapsto> Resolved v)"

text \<open>Modelled from the spec: the constructor of \<^verbatim>\<open>AsyncWorkCache\<close> is missing;
  \<open>fork(from?)\<close>: a new cache whose entry set is a point-in-time copy of \<open>from\<close>'s
  entries, or empty if \<open>from\<close> is omitted. The entries themselves (the promises) are
  shared, which is what copying the map of promises does.\<close>

definition wc_fork :: "('k, 'v) AsyncWorkCache option \<Rightarrow> ('k, 'v) AsyncWorkCache" where
  "wc_fork from = (case from of None \<Rightarrow> Map.empty | Some es \<Rightarrow> es)"

subsection \<open>One work cache and the computations it started\<close>

text \<open>Modelled from the spec: the scheduling of the computations is not in the sources.
  \<open>getOrCompute\<close> starts asynchronous computations, which settle later, between two
  operations on the cache (scheduling is cooperative: one logical thread of control
  services many logically concurrent requests). The
  state below is one cache instance together with the computations it has started:
  \<open>started\<close> lists, in order, the key and the compute function of every computation started
  (the computation \<open>n\<close> is the \<open>n\<close>-th element, and \<open>Deferred n\<close> is its promise), so it is
  also the record of every invocation of a compute function; \<open>settled\<close> gives the outcome of
  the computations that have completed.\<close>

record ('k, 'v, 'f) work =
  entries :: "('k, 'v) AsyncWorkCache"
  started :: "('k \<times> 'f) list"
  settled :: "nat \<rightharpoonup> 'v outcome"

definition new_work :: "('k, 'v, 'f) work" where
  "new_work = \<lparr>entries = wc_fork None, started = [], settled = Map.empty\<rparr>"

text \<open>Modelled from the spec: the body of \<^verbatim>\<open>AsyncWorkCache.getOrCompute\<close> is missing;
  \<open>getOrCompute(key, compute)\<close>: if an entry for \<open>key\<close> already exists, return that exact
  entry (never invoke \<open>compute\<close>); otherwise synchronously create and register a new
  in-progress entry backed by \<open>compute()\<close>'s eventual result, then return it.\<close>

definition getOrCompute ::
  "'k \<Rightarrow> 'f \<Rightarrow> ('k, 'v, 'f) work \<Rightarrow> 'v promise \<times> ('k, 'v, 'f) work" where
  "getOrCompute key compute w =
     (case entries w key of
        Some cachedResult \<Rightarrow> (cachedResult, w)
      | None \<Rightarrow>
          (let n = length (started w);
               p = Deferred n
           in (p, w\<lparr>entries := (entries w)(key \<mapsto> p),
                     started := started w @ [(key, compute)]\<rparr>)))"

text \<open>Modelled from the spec: a started computation always runs to completion (success
  or failure) and that outcome is cached. \<open>settle n out\<close> is the completion of the
  computation \<open>n\<close> with the outcome \<open>out\<close>. A computation settles once: completing one
  that is unknown or already settled changes nothing.\<close>

definition settle :: "nat \<Rightarrow> 'v outcome \<Rightarrow> ('k, 'v, 'f) work \<Rightarrow> ('k, 'v, 'f) work" where
  "settle n out w =
     (if n < length (started w) \<and> settled w n = None
      then w\<lparr>settled := (settled w)(n \<mapsto> out)\<rparr> else w)"

text \<open>What an observer who awaits the promise \<open>p\<close> has received so far.\<close>

definition observed :: "('k, 'v, 'f) work \<Rightarrow> 'v promise \<Rightarrow> 'v outcome option" where
  "observed w p = (case p of Resolved v \<Rightarrow> Some (Success v) | Deferred n \<Rightarrow> settled w n)"

text \<open>The operations on the cache and the completions of computations, as events.\<close>

datatype ('k, 'v, 'f) event =
    GetOrCompute 'k 'f
  | Set 'k 'v
  | Delete 'k
  | Clear
  | Settle nat "'v outcome"

fun step :: "('k, 'v, 'f) event \<Rightarrow> ('k, 'v, 'f) work \<Rightarrow> ('k, 'v, 'f) work" where
  "step (GetOrCompute key compute) w = snd (getOrCompute key compute w)"
| "step (Set key v) w = w\<lparr>entries := wc_set key v (entries w)\<rparr>"
| "step (Delete key) w = w\<lparr>entries := wc_delete key (entries w)\<rparr>"
| "step Clear w = w\<lparr>entries := wc_clear (entries w)\<rparr>"
| "step (Settle n out) w = settle n out w"

definition run :: "('k, 'v, 'f) event list \<Rightarrow> ('k, 'v, 'f) work \<Rightarrow> ('k, 'v, 'f) work" where
  "run evs w = fold step evs w"

text \<open>How many times a compute function has been invoked for the key \<open>key\<close>.\<close>

definition invocations :: "'k \<Rightarrow> ('k, 'v, 'f) work \<Rightarrow> nat" where
  "invocations key w = length (filter (\<lambda>kf. fst kf = key) (started w))"

text \<open>The promises that the \<open>getOrCompute\<close> calls for \<open>key\<close> in \<open>evs\<close> return, in order,
  when the events run from the state \<open>w\<close>.\<close>

fun returned :: "'k \<Rightarrow> ('k, 'v, 'f) event list \<Rightarrow> ('k, 'v, 'f) work \<Rightarrow> 'v promise list" where
  "returned key [] w = []"
| "returned key (GetOrCompute k compute # evs) w =
     (if k = key then [fst (getOrCompute k compute w)] else [])
     @ returned key evs (step (GetOrCompute k compute) w)"
| "returned key (ev # evs) w = returned key evs (step ev w)"

text \<open>The events that remove the entry of \<open>key\<close>, and those that remove or replace it.\<close>

fun removes :: "'k \<Rightarrow> ('k, 'v, 'f) event \<Rightarrow> bool" where
  "removes key (Delete k) = (k = key)"
| "removes key Clear = True"
| "removes key _ = False"

fun replaces :: "'k \<Rightarrow> ('k, 'v, 'f) event \<Rightarrow> bool" where
  "replaces key (Set k v) = (k = key)"
| "replaces key ev = removes key ev"

text \<open>The event \<open>delete(key)\<close> alone.\<close>

fun deletes :: "'k \<Rightarrow> ('k, 'v, 'f) event \<Rightarrow> bool" where
  "deletes key (Delete k) = (k = key)"
| "deletes key _ = False"

section \<open>DependencyGraph\<close>

text \<open>Modelled from the spec: the class \<^verbatim>\<open>DependencyGraph\<close> is imported by
  \<^verbatim>\<open>analysis-cache.ts\<close> from \<^verbatim>\<open>./dependency-graph\<close>, which is missing. Its nodes are
  document identities; a forward edge \<open>(a, b)\<close> means that the scan of \<open>a\<close> declared a
  dependency on \<open>b\<close>. Forward and reverse adjacency are both read off the list of
  edges.\<close>

type_synonym DependencyGraph = "(doc_id \<times> doc_id) list"

text \<open>Modelled from the spec: the body of \<^verbatim>\<open>DependencyGraph.setDependencies\<close> is missing;
  \<open>setDependencies(id, dependencyIds)\<close>: replace \<open>id\<close>'s outgoing edge set.\<close>

definition setDependencies :: "doc_id \<Rightarrow> doc_id list \<Rightarrow> DependencyGraph \<Rightarrow> DependencyGraph" where
  "setDependencies ident dependencyIds g =
     filter (\<lambda>e. fst e \<noteq> ident) g @ map (\<lambda>d. (ident, d)) (remdups dependencyIds)"

text \<open>Modelled from the spec: the reverse adjacency (``who depends on me''), that is the
  documents whose scan declared a dependency on \<open>ident\<close>.\<close>

definition dependantsOf :: "DependencyGraph \<Rightarrow> doc_id \<Rightarrow> doc_id list" where
  "dependantsOf g ident = map fst (filter (\<lambda>e. snd e = ident) g)"

text \<open>Modelled from the spec: the traversal behind \<open>getAllDependants\<close>, which follows
  reverse edges transitively and must terminate and de-duplicate in the presence of cycles.
  \<open>todo\<close> holds the documents still to visit, \<open>visited\<close> those already visited, in the
  order of their first visit. A document that was visited is never visited again, which is
  what ends the traversal on a cycle.\<close>

function visit :: "DependencyGraph \<Rightarrow> doc_id list \<Rightarrow> doc_id list \<Rightarrow> doc_id list" where
  "visit g [] visited = visited"
| "visit g (x # todo) visited =
     (if x \<in> set visited then visit g todo visited
      else visit g (dependantsOf g x @ todo) (visited @ [x]))"
  by pat_completeness auto
termination
proof (relation "inv_image (less_than <*lex*> less_than)
        (\<lambda>(g, todo, visited). (card ((fst ` set g \<union> set todo) - set visited), length todo))")
  show "wf (inv_image (less_than <*lex*> less_than)
        (\<lambda>(g :: DependencyGraph, todo :: doc_id list, visited :: doc_id list).
           (card ((fst ` set g \<union> set todo) - set visited), length todo)))"
    by (intro wf_inv_image wf_lex_prod wf_less_than)
next
  fix g :: DependencyGraph and x :: doc_id and todo visited :: "doc_id list"
  assume "x \<in> set visited"
  then have "(fst ` set g \<union> set (x # todo)) - set visited = (fst ` set g \<union> set todo) - set visited"
    by auto
  then show "((g, todo, visited), (g, x # todo, visited))
      \<in> inv_image (less_than <*lex*> less_than)
        (\<lambda>(g, todo, visited). (card ((fst ` set g \<union> set todo) - set visited), length todo))"
    by simp
next
  fix g :: DependencyGraph and x :: doc_id and todo visited :: "doc_id list"
  assume x: "x \<notin> set visited"
  let ?old = "(fst ` set g \<union> set (x # todo)) - set visited"
  let ?new = "(fst ` set g \<union> set (dependantsOf g x @ todo)) - set (visited @ [x])"
  have "set (dependantsOf g x) \<subseteq> fst ` set g"
    by (auto simp: dependantsOf_def)
  then have "?new \<subseteq> ?old - {x}"
    by auto
  moreover have "x \<in> ?old"
    using x by simp
  ultimately have "?new \<subset> ?old"
    by blast
  moreover have "finite ?old"
    by simp
  ultimately have "card ?new < card ?old"
    by (rule psubset_card_mono [rotated])
  then show "((g, dependantsOf g x @ todo, visited @ [x]), (g, x # todo, visited))
      \<in> inv_image (less_than <*lex*> less_than)
        (\<lambda>(g, todo, visited). (card ((fst ` set g \<union> set todo) - set visited), length todo))"
    by simp
qed

text \<open>Modelled from the spec: the body of \<^verbatim>\<open>DependencyGraph.getAllDependantsOf\<close> is
  missing; \<open>getAllDependants(id)\<close>: return the set of all ids reachable by following reverse
  edges transitively from \<open>id\<close>, excluding \<open>id\<close> itself; it must terminate and de-duplicate
  in the presence of cycles.\<close>

definition getAllDependantsOf :: "DependencyGraph \<Rightarrow> doc_id \<Rightarrow> doc_id list" where
  "getAllDependantsOf g ident = removeAll ident (visit g [ident] [])"

text \<open>Modelled from the spec: the body of \<^verbatim>\<open>DependencyGraph.invalidatePaths\<close> is missing;
  \<open>invalidatePaths(ids)\<close>: compute, against the receiver's current edges, the union of
  \<open>ids\<close> and every transitive dependant of every id in \<open>ids\<close>; return a new graph with all
  edges touching any id in that union removed (both as source and as target), leaving all
  other edges untouched.\<close>

definition invalidatePaths :: "DependencyGraph \<Rightarrow> doc_id list \<Rightarrow> DependencyGraph" where
  "invalidatePaths g ids =
     (let invalid = ids @ concat (map (getAllDependantsOf g) ids)
      in filter (\<lambda>e. fst e \<notin> set invalid \<and> snd e \<notin> set invalid) g)"

section \<open>The heap\<close>

text \<open>
  \<^verbatim>\<open>AsyncWorkCache\<close>, \<^verbatim>\<open>Map\<close> and \<^verbatim>\<open>DependencyGraph\<close> instances are objects: they are
  reached through references, and the methods \<open>delete\<close>, \<open>clear\<close> and \<open>set\<close> update them in
  place. The heap gives the content of every object of each class; \<open>nextRef\<close> is the next
  reference to allocate, so the allocated objects are those below it.
\<close>

type_synonym ref = nat

record 'v heap =
  nextRef :: ref
  workCaches :: "ref \<Rightarrow> (doc_id, 'v) AsyncWorkCache"
  maps :: "ref \<Rightarrow> (doc_id \<rightharpoonup> 'v)"
  graphs :: "ref \<Rightarrow> DependencyGraph"

definition empty_heap :: "'v heap" where
  "empty_heap = \<lparr>nextRef = 0, workCaches = (\<lambda>r. Map.empty), maps = (\<lambda>r. Map.empty),
                  graphs = (\<lambda>r. [])\<rparr>"

text \<open>\<^verbatim>\<open>new AsyncWorkCache(from)\<close>, where \<open>from\<close> may be undefined: a new object, whose
  entries are those of \<open>wc_fork\<close>.\<close>

definition new_AsyncWorkCache :: "ref option \<Rightarrow> 'v heap \<Rightarrow> ref \<times> 'v heap" where
  "new_AsyncWorkCache from h =
     (let r = nextRef h
      in (r, h\<lparr>nextRef := Suc r,
                workCaches := (workCaches h)(r := wc_fork (map_option (workCaches h) from))\<rparr>))"

text \<open>\<^verbatim>\<open>new Map(from)\<close>, where \<open>from\<close> may be undefined: a copy of the entries.\<close>

definition new_Map :: "ref option \<Rightarrow> 'v heap \<Rightarrow> ref \<times> 'v heap" where
  "new_Map from h =
     (let r = nextRef h
      in (r, h\<lparr>nextRef := Suc r,
                maps := (maps h)(r := (case from of None \<Rightarrow> Map.empty | Some m \<Rightarrow> maps h m))\<rparr>))"

text \<open>Modelled from the spec: \<^verbatim>\<open>new DependencyGraph()\<close> is ``a fresh empty graph''.\<close>

definition new_DependencyGraph :: "'v heap \<Rightarrow> ref \<times> 'v heap" where
  "new_DependencyGraph h =
     (let r = nextRef h
      in (r, h\<lparr>nextRef := Suc r, graphs := (graphs h)(r := [])\<rparr>))"

text \<open>Modelled from the spec: \<^verbatim>\<open>g.invalidatePaths(ids)\<close> ``return[s] a new graph''; ``the
  receiver is never mutated''.\<close>

definition DependencyGraph_invalidatePaths :: "ref \<Rightarrow> doc_id list \<Rightarrow> 'v heap \<Rightarrow> ref \<times> 'v heap" where
  "DependencyGraph_invalidatePaths g ids h =
     (let r = nextRef h
      in (r, h\<lparr>nextRef := Suc r, graphs := (graphs h)(r := invalidatePaths (graphs h g) ids)\<rparr>))"

definition AsyncWorkCache_delete :: "ref \<Rightarrow> doc_id \<Rightarrow> 'v heap \<Rightarrow> 'v heap" where
  "AsyncWorkCache_delete c key h =
     h\<lparr>workCaches := (workCaches h)(c := wc_delete key (workCaches h c))\<rparr>"

definition AsyncWorkCache_clear :: "ref \<Rightarrow> 'v heap \<Rightarrow> 'v heap" where
  "AsyncWorkCache_clear c h = h\<lparr>workCaches := (workCaches h)(c := wc_clear (workCaches h c))\<rparr>"

definition AsyncWorkCache_set :: "ref \<Rightarrow> doc_id \<Rightarrow> 'v \<Rightarrow> 'v heap \<Rightarrow> 'v heap" where
  "AsyncWorkCache_set c key v h =
     h\<lparr>workCaches := (workCaches h)(c := wc_set key v (workCaches h c))\<rparr>"

text \<open>\<^verbatim>\<open>m.delete(key)\<close> and \<^verbatim>\<open>m.set(key, v)\<close> of a \<^verbatim>\<open>Map\<close>.\<close>

definition Map_delete :: "ref \<Rightarrow> doc_id \<Rightarrow> 'v heap \<Rightarrow> 'v heap" where
  "Map_delete m key h = h\<lparr>maps := (maps h)(m := (maps h m)(key := None))\<rparr>"

definition Map_set :: "ref \<Rightarrow> doc_id \<Rightarrow> 'v \<Rightarrow> 'v heap \<Rightarrow> 'v heap" where
  "Map_set m key v h = h\<lparr>maps := (maps h)(m := (maps h m)(key \<mapsto> v))\<rparr>"

text \<open>
  The loop \<^verbatim>\<open>for (const keyValue of m) c.set(keyValue[0], keyValue[1])\<close> over the entries
  of a \<^verbatim>\<open>Map\<close>. The keys of a \<^verbatim>\<open>Map\<close> are distinct, so the order of the iteration does
  not show in the result: every key of \<open>m\<close> gets a resolved entry with its value, and the
  other entries of \<open>c\<close> stay.
\<close>

definition wc_set_entries :: "('k \<rightharpoonup> 'v) \<Rightarrow> ('k, 'v) AsyncWorkCache \<Rightarrow> ('k, 'v) AsyncWorkCache" where
  "wc_set_entries m es =
     (\<lambda>key. case m key of Some v \<Rightarrow> Some (Resolved v) | None \<Rightarrow> es key)"

definition AsyncWorkCache_set_entries :: "ref \<Rightarrow> ref \<Rightarrow> 'v heap \<Rightarrow> 'v heap" where
  "AsyncWorkCache_set_entries m c h =
     h\<lparr>workCaches := (workCaches h)(c := wc_set_entries (maps h m) (workCaches h c))\<rparr>"

section \<open>AnalysisCache\<close>

text \<open>
  An \<^verbatim>\<open>AnalysisCache\<close> holds references to four work caches, two maps and one dependency
  graph. Its fields are assigned by the constructor only.
\<close>

record AnalysisCache =
  parsedDocumentPromises :: ref
  scannedDocumentPromises :: ref
  dependenciesScannedPromises :: ref
  analyzedDocumentPromises :: ref
  scannedDocuments :: ref
  analyzedDocuments :: ref
  dependencyGraph :: ref

text \<open>
  \<^verbatim>\<open>constructor(from?: AnalysisCache, newDependencyGraph?: DependencyGraph)\<close>: every cache
  and map is a fresh copy of the one of \<open>from\<close> (or empty), in the order of the source; the
  graph is \<open>newDependencyGraph\<close> if given, and a new empty graph otherwise.
\<close>

definition AnalysisCache_new ::
  "AnalysisCache option \<Rightarrow> ref option \<Rightarrow> 'v heap \<Rightarrow> AnalysisCache \<times> 'v heap" where
  "AnalysisCache_new from newDependencyGraph h0 =
     (let (parsed, h1) = new_AsyncWorkCache (map_option parsedDocumentPromises from) h0;
          (scanned, h2) = new_AsyncWorkCache (map_option scannedDocumentPromises from) h1;
          (analyzed, h3) = new_AsyncWorkCache (map_option analyzedDocumentPromises from) h2;
          (dependenciesScanned, h4) =
             new_AsyncWorkCache (map_option dependenciesScannedPromises from) h3;
          (scannedDocs, h5) = new_Map (map_option scannedDocuments from) h4;
          (analyzedDocs, h6) = new_Map (map_option analyzedDocuments from) h5;
          (graph, h7) = (case newDependencyGraph of
                           Some g \<Rightarrow> (g, h6)
                         | None \<Rightarrow> new_DependencyGraph h6)
      in (\<lparr>parsedDocumentPromises = parsed,
           scannedDocumentPromises = scanned,
           dependenciesScannedPromises = dependenciesScanned,
           analyzedDocumentPromises = analyzed,
           scannedDocuments = scannedDocs,
           analyzedDocuments = analyzedDocs,
           dependencyGraph = graph\<rparr>, h7))"

text \<open>
  The inner loop of \<open>invalidate\<close>, over the dependants of the changed document:
  \<^verbatim>\<open>newCache.dependenciesScannedPromises.delete(partiallyInvalidatedPath);
  newCache.analyzedDocuments.delete(partiallyInvalidatedPath);\<close>
\<close>

definition invalidate_dependant :: "AnalysisCache \<Rightarrow> doc_id \<Rightarrow> 'v heap \<Rightarrow> 'v heap" where
  "invalidate_dependant newCache partiallyInvalidatedPath h =
     Map_delete (analyzedDocuments newCache) partiallyInvalidatedPath
       (AsyncWorkCache_delete (dependenciesScannedPromises newCache) partiallyInvalidatedPath h)"

text \<open>
  The body of the loop of \<open>invalidate\<close> over \<open>documentPaths\<close>. The dependants are computed
  on the graph of the receiver \<open>this\<close>, not on that of \<open>newCache\<close>. The analyzed work cache
  is cleared and filled again from \<open>newCache.analyzedDocuments\<close> at the end of the body, that
  is once for every path.
\<close>

definition invalidate_path :: "AnalysisCache \<Rightarrow> AnalysisCache \<Rightarrow> doc_id \<Rightarrow> 'v heap \<Rightarrow> 'v heap" where
  "invalidate_path this newCache path h0 =
     (let dependants = getAllDependantsOf (graphs h0 (dependencyGraph this)) path;
          h1 = AsyncWorkCache_delete (parsedDocumentPromises newCache) path h0;
          h2 = AsyncWorkCache_delete (scannedDocumentPromises newCache) path h1;
          h3 = AsyncWorkCache_delete (dependenciesScannedPromises newCache) path h2;
          h4 = Map_delete (scannedDocuments newCache) path h3;
          h5 = Map_delete (analyzedDocuments newCache) path h4;
          h6 = fold (invalidate_dependant newCache) dependants h5;
          h7 = AsyncWorkCache_clear (analyzedDocumentPromises newCache) h6
      in AsyncWorkCache_set_entries (analyzedDocuments newCache)
           (analyzedDocumentPromises newCache) h7)"

text \<open>\<^verbatim>\<open>invalidate(documentPaths: string[]): AnalysisCache\<close>\<close>

definition invalidate :: "AnalysisCache \<Rightarrow> doc_id list \<Rightarrow> 'v heap \<Rightarrow> AnalysisCache \<times> 'v heap" where
  "invalidate this documentPaths h0 =
     (let (newGraph, h1) =
            DependencyGraph_invalidatePaths (dependencyGraph this) documentPaths h0;
          (newCache, h2) = AnalysisCache_new (Some this) (Some newGraph) h1
      in (newCache, fold (invalidate_path this newCache) documentPaths h2))"

subsection \<open>The algorithm as the specification words it\<close>

text \<open>
  Step 3 of the specification, for one id: (a) the dependants, on the original graph;
  (b) remove the id from all four work caches and both published mappings; (c) remove
  every dependant from the dependencies-scanned work cache, the published analyzed mapping
  and the analyzed work cache.
\<close>

definition spec_invalidate_dependant :: "AnalysisCache \<Rightarrow> doc_id \<Rightarrow> 'v heap \<Rightarrow> 'v heap" where
  "spec_invalidate_dependant next d h =
     AsyncWorkCache_delete (analyzedDocumentPromises next) d
       (Map_delete (analyzedDocuments next) d
         (AsyncWorkCache_delete (dependenciesScannedPromises next) d h))"

definition spec_invalidate_id :: "AnalysisCache \<Rightarrow> AnalysisCache \<Rightarrow> doc_id \<Rightarrow> 'v heap \<Rightarrow> 'v heap" where
  "spec_invalidate_id this next ident h0 =
     (let dependants = getAllDependantsOf (graphs h0 (dependencyGraph this)) ident;
          h1 = AsyncWorkCache_delete (parsedDocumentPromises next) ident h0;
          h2 = AsyncWorkCache_delete (scannedDocumentPromises next) ident h1;
          h3 = AsyncWorkCache_delete (dependenciesScannedPromises next) ident h2;
          h4 = AsyncWorkCache_delete (analyzedDocumentPromises next) ident h3;
          h5 = Map_delete (scannedDocuments next) ident h4;
          h6 = Map_delete (analyzedDocuments next) ident h5
      in fold (spec_invalidate_dependant next) dependants h6)"

text \<open>
  The five steps of the specification: the new graph, the fork, the loop over the ids,
  then (once, after the loop) the analyzed work cache cleared and seeded again from the
  published analyzed mapping, and the result.
\<close>

definition spec_invalidate :: "AnalysisCache \<Rightarrow> doc_id list \<Rightarrow> 'v heap \<Rightarrow> AnalysisCache \<times> 'v heap" where
  "spec_invalidate this ids h0 =
     (let (newGraph, h1) = DependencyGraph_invalidatePaths (dependencyGraph this) ids h0;
          (next, h2) = AnalysisCache_new (Some this) (Some newGraph) h1;
          h3 = fold (spec_invalidate_id this next) ids h2;
          h4 = AsyncWorkCache_clear (analyzedDocumentPromises next) h3
      in (next, AsyncWorkCache_set_entries (analyzedDocuments next)
                  (analyzedDocumentPromises next) h4))"

subsection \<open>Well-formed receivers\<close>

text \<open>The objects that a cache refers to are allocated.\<close>

definition allocated :: "'v heap \<Rightarrow> AnalysisCache \<Rightarrow> bool" where
  "allocated h c \<longleftrightarrow>
     parsedDocumentPromises c < nextRef h \<and> scannedDocumentPromises c < nextRef h \<and>
     dependenciesScannedPromises c < nextRef h \<and> analyzedDocumentPromises c < nextRef h \<and>
     scannedDocuments c < nextRef h \<and> analyzedDocuments c < nextRef h \<and>
     dependencyGraph c < nextRef h"

text \<open>
  The documents that \<open>invalidate\<close> treats as stale: the given paths and all their
  dependants in the graph \<open>g\<close>.
\<close>

definition stale :: "DependencyGraph \<Rightarrow> doc_id list \<Rightarrow> doc_id set" where
  "stale g paths = set paths \<union> (\<Union>p \<in> set paths. set (getAllDependantsOf g p))"

subsection \<open>The fork that \<open>invalidate\<close> works on\<close>

text \<open>
  The first statement of \<open>invalidate\<close> allocates seven objects in a row: the new graph
  and then, in the constructor, the four work caches and the two maps. \<open>forkedCache n\<close> is
  the new cache when the next free reference is \<open>n\<close>, and \<open>forked this paths h\<close> is the
  heap once the constructor has returned, before the loop over the paths.
\<close>

definition forked :: "AnalysisCache \<Rightarrow> doc_id list \<Rightarrow> 'v heap \<Rightarrow> 'v heap" where
  "forked this paths h =
     snd (AnalysisCache_new (Some this) (Some (nextRef h))
            (snd (DependencyGraph_invalidatePaths (dependencyGraph this) paths h)))"

definition forkedCache :: "ref \<Rightarrow> AnalysisCache" where
  "forkedCache n =
     \<lparr>parsedDocumentPromises = Suc n,
      scannedDocumentPromises = Suc (Suc n),
      dependenciesScannedPromises = Suc (Suc (Suc (Suc n))),
      analyzedDocumentPromises = Suc (Suc (Suc n)),
      scannedDocuments = Suc (Suc (Suc (Suc (Suc n)))),
      analyzedDocuments = Suc (Suc (Suc (Suc (Suc (Suc n))))),
      dependencyGraph = n\<rparr>"

section \<open>A worked example\<close>

text \<open>
  The graph has the edges \<open>A \<rightarrow> B\<close> and \<open>B \<rightarrow> C\<close>: \<open>A\<close> depends on \<open>B\<close>, which
  depends on \<open>C\<close>. The cache holds results for the three documents; some of the
  computations are still in progress.
\<close>

definition example_graph :: DependencyGraph where
  "example_graph = [(''A'', ''B''), (''B'', ''C'')]"

definition example_cache :: AnalysisCache where
  "example_cache =
     \<lparr>parsedDocumentPromises = 0, scannedDocumentPromises = 1,
      dependenciesScannedPromises = 2, analyzedDocumentPromises = 3,
      scannedDocuments = 4, analyzedDocuments = 5, dependencyGraph = 6\<rparr>"

definition example_heap :: "nat heap" where
  "example_heap =
     \<lparr>nextRef = 7,
      workCaches = (\<lambda>r. Map.empty)
        (0 := [''A'' \<mapsto> Resolved 1, ''B'' \<mapsto> Resolved 2, ''C'' \<mapsto> Resolved 3],
         1 := [''A'' \<mapsto> Resolved 11, ''B'' \<mapsto> Resolved 12, ''C'' \<mapsto> Deferred 0],
         2 := [''A'' \<mapsto> Resolved 11, ''B'' \<mapsto> Deferred 1],
         3 := [''A'' \<mapsto> Resolved 21, ''B'' \<mapsto> Deferred 2, ''C'' \<mapsto> Resolved 23]),
      maps = (\<lambda>r. Map.empty)
        (4 := [''A'' \<mapsto> 11, ''B'' \<mapsto> 12],
         5 := [''A'' \<mapsto> 21, ''C'' \<mapsto> 23]),
      graphs = (\<lambda>r. [])(6 := example_graph)\<rparr>"

text \<open>
  The cycle \<open>A \<rightarrow> B\<close>, \<open>B \<rightarrow> C\<close>, \<open>C \<rightarrow> A\<close>, built by three calls of
  \<open>setDependencies\<close> on the empty graph.
\<close>

definition cycle_graph :: DependencyGraph where
  "cycle_graph =
     setDependencies ''C'' [''A''] (setDependencies ''B'' [''C''] (setDependencies ''A'' [''B''] []))"

text \<open>
  Three runs of one work cache, with compute functions named by strings. In the first, three
  callers request \<open>k\<close> while another key is set and the first computation settles. In the
  second, the computation for \<open>k\<close> fails. In the third, \<open>k\<close> is set between two requests
  for it, before the computation started by the first request settles.
\<close>

definition example_requests :: "(string, nat, string) event list" where
  "example_requests =
     [GetOrCompute ''k'' ''f'', GetOrCompute ''k'' ''g'', Set ''j'' 7,
      Settle 0 (Success 5), GetOrCompute ''k'' ''f'']"

definition example_failure :: "(string, nat, string) event list" where
  "example_failure = [GetOrCompute ''k'' ''f'', Settle 0 (Failure ''boom'')]"

definition example_replaced :: "(string, nat, string) event list" where
  "example_replaced =
     [GetOrCompute ''k'' ''f'', Set ''k'' 7, GetOrCompute ''k'' ''g'', Settle 0 (Success 5)]"

section \<open>Agreement of a published mapping with its work cache\<close>

text \<open>
  The comment on \<^verbatim>\<open>scannedDocuments\<close> and \<^verbatim>\<open>analyzedDocuments\<close> in the source reads:
  ``These synchronous caches need to be kept in sync with their async work cache
  analogues above.'' A mapping and a work cache agree when no document has a value in the
  mapping and a promise resolved with another value in the work cache. (The value of a
  \<open>Deferred\<close> promise is not in the heap, so such an entry is not compared.)
\<close>

definition in_sync :: "(doc_id \<rightharpoonup> 'v) \<Rightarrow> (doc_id, 'v) AsyncWorkCache \<Rightarrow> bool" where
  "in_sync m c \<longleftrightarrow> (\<forall>k v v'. m k = Some v \<longrightarrow> c k = Some (Resolved v') \<longrightarrow> v' = v)"

text \<open>
  The fields of an \<^verbatim>\<open>AnalysisCache\<close> are public, and the class has no method that stores
  a result: a caller stores a value with \<^verbatim>\<open>cache.scannedDocuments.set(url, doc)\<close> and a
  promise with \<^verbatim>\<open>cache.scannedDocumentPromises.set(url, doc)\<close> (or \<open>getOrCompute\<close>), which
  are two calls on two objects. \<open>unsynced_example\<close> is a new cache after one call of each,
  with different values for the document \<open>a\<close>.
\<close>

definition unsynced_example :: "AnalysisCache \<times> nat heap" where
  "unsynced_example =
     (let (c, h1) = AnalysisCache_new None None empty_heap;
          h2 = AsyncWorkCache_set (scannedDocumentPromises c) ''a'' 1 h1;
          h3 = Map_set (scannedDocuments c) ''a'' 2 h2
      in (c, h3))"

section \<open>Properties of the work cache\<close>

lemma getOrCompute_hit: "entries w key = Some p \<Longrightarrow> getOrCompute key compute w = (p, w)"
  by (simp add: getOrCompute_def)

lemma getOrCompute_miss:
  "entries w key = None \<Longrightarrow>
   getOrCompute key compute w =
     (Deferred (length (started w)),
      w\<lparr>entries := (entries w)(key \<mapsto> Deferred (length (started w))),
        started := started w @ [(key, compute)]\<rparr>)"
  by (simp add: getOrCompute_def Let_def)

lemma run_Nil [simp]: "run [] w = w"
  by (simp add: run_def)

lemma run_Cons [simp]: "run (ev # evs) w = run evs (step ev w)"
  by (simp add: run_def)

lemma run_append: "run (evs @ evs') w = run evs' (run evs w)"
  by (simp add: run_def)

lemma invocations_step:
  "invocations key (step ev w) =
     invocations key w +
       (if (\<exists>compute. ev = GetOrCompute key compute) \<and> entries w key = None then 1 else 0)"
proof (cases ev)
  case (GetOrCompute k compute)
  then show ?thesis
    by (cases "entries w k")
       (auto simp: invocations_def getOrCompute_hit getOrCompute_miss)
qed (simp_all add: invocations_def settle_def)

lemma step_keeps_entry:
  "\<not> removes key ev \<Longrightarrow> entries w key \<noteq> None \<Longrightarrow> entries (step ev w) key \<noteq> None"
proof (cases ev)
  case (GetOrCompute k compute)
  assume "entries w key \<noteq> None"
  with GetOrCompute show ?thesis
    by (cases "entries w k") (auto simp: getOrCompute_hit getOrCompute_miss)
qed (auto simp: wc_set_def wc_delete_def settle_def)

lemma step_same_entry:
  "\<not> replaces key ev \<Longrightarrow> entries w key = Some p \<Longrightarrow> entries (step ev w) key = Some p"
proof (cases ev)
  case (GetOrCompute k compute)
  assume "entries w key = Some p"
  with GetOrCompute show ?thesis
    by (cases "entries w k") (auto simp: getOrCompute_hit getOrCompute_miss)
qed (auto simp: wc_set_def wc_delete_def settle_def)

lemma step_registers:
  "entries w key = None \<Longrightarrow> entries (step (GetOrCompute key compute) w) key \<noteq> None"
  by (simp add: getOrCompute_miss)

lemma run_no_invocation:
  "\<forall>ev \<in> set evs. \<not> removes key ev \<Longrightarrow> entries w key \<noteq> None \<Longrightarrow>
   invocations key (run evs w) = invocations key w"
proof (induction evs arbitrary: w)
  case Nil
  then show ?case by simp
next
  case (Cons ev evs)
  have "entries (step ev w) key \<noteq> None"
    using Cons.prems by (simp add: step_keeps_entry)
  then have "invocations key (run evs (step ev w)) = invocations key (step ev w)"
    using Cons by simp
  then show ?case
    using Cons.prems(2) by (simp add: invocations_step)
qed

lemma run_at_most_one_invocation:
  "\<forall>ev \<in> set evs. \<not> removes key ev \<Longrightarrow>
   invocations key (run evs w) \<le> invocations key w + 1"
proof (induction evs arbitrary: w)
  case Nil
  then show ?case by simp
next
  case (Cons ev evs)
  show ?case
  proof (cases "(\<exists>compute. ev = GetOrCompute key compute) \<and> entries w key = None")
    case True
    then obtain compute where ev: "ev = GetOrCompute key compute" and none: "entries w key = None"
      by blast
    have "entries (step ev w) key \<noteq> None"
      unfolding ev using none by (rule step_registers)
    then have "invocations key (run evs (step ev w)) = invocations key (step ev w)"
      using Cons.prems by (simp add: run_no_invocation)
    then show ?thesis
      by (simp add: invocations_step)
  next
    case False
    have "invocations key (run evs (step ev w)) \<le> invocations key (step ev w) + 1"
      using Cons by simp
    moreover have "invocations key (step ev w) = invocations key w"
      using False by (auto simp: invocations_step)
    ultimately show ?thesis
      by simp
  qed
qed

lemma run_same_entry:
  "\<forall>ev \<in> set evs. \<not> replaces key ev \<Longrightarrow> entries w key = Some p \<Longrightarrow>
   entries (run evs w) key = Some p"
  by (induction evs arbitrary: w) (simp_all add: step_same_entry)

lemma returned_Cons:
  "returned key (ev # evs) w =
     (case ev of
        GetOrCompute k compute \<Rightarrow> if k = key then [fst (getOrCompute k compute w)] else []
      | _ \<Rightarrow> [])
     @ returned key evs (step ev w)"
  by (cases ev) simp_all

lemma returned_same_entry:
  "\<forall>ev \<in> set evs. \<not> replaces key ev \<Longrightarrow> entries w key = Some p \<Longrightarrow>
   q \<in> set (returned key evs w) \<Longrightarrow> q = p"
proof (induction evs arbitrary: w)
  case Nil
  then show ?case by simp
next
  case (Cons ev evs)
  have keep: "\<not> replaces key ev" and others: "\<forall>ev \<in> set evs. \<not> replaces key ev"
    using Cons.prems(1) by simp_all
  have next_entry: "entries (step ev w) key = Some p"
    using keep Cons.prems(2) by (rule step_same_entry)
  have rest: "q \<in> set (returned key evs (step ev w)) \<Longrightarrow> q = p"
    using Cons.IH [OF others next_entry] .
  have first: "q \<in> set (case ev of
        GetOrCompute k compute \<Rightarrow> if k = key then [fst (getOrCompute k compute w)] else []
      | _ \<Rightarrow> []) \<Longrightarrow> q = p"
    using Cons.prems(2) by (cases ev) (simp_all add: getOrCompute_hit split: if_splits)
  from Cons.prems(3) have "q \<in> set (case ev of
        GetOrCompute k compute \<Rightarrow> if k = key then [fst (getOrCompute k compute w)] else []
      | _ \<Rightarrow> []) \<or> q \<in> set (returned key evs (step ev w))"
    unfolding returned_Cons by simp
  with first rest show ?case
    by blast
qed

lemma returned_all_equal:
  "\<forall>ev \<in> set evs. \<not> replaces key ev \<Longrightarrow> \<exists>p. \<forall>q \<in> set (returned key evs w). q = p"
proof (induction evs arbitrary: w)
  case Nil
  then show ?case by simp
next
  case (Cons ev evs)
  show ?case
  proof (cases "entries w key")
    case (Some p)
    with Cons.prems returned_same_entry [of "ev # evs" key w p] show ?thesis
      by blast
  next
    case None
    show ?thesis
    proof (cases "\<exists>compute. ev = GetOrCompute key compute")
      case True
      then obtain compute where ev: "ev = GetOrCompute key compute"
        by blast
      let ?p = "Deferred (length (started w))"
      have "entries (step ev w) key = Some ?p"
        by (simp add: ev getOrCompute_miss None)
      then have "\<And>q. q \<in> set (returned key evs (step ev w)) \<Longrightarrow> q = ?p"
        using returned_same_entry [of evs key "step ev w" ?p] Cons.prems by simp
      then have "\<forall>q \<in> set (returned key (ev # evs) w). q = ?p"
        unfolding returned_Cons by (auto simp: ev getOrCompute_miss None)
      then show ?thesis ..
    next
      case False
      have "\<exists>p. \<forall>q \<in> set (returned key evs (step ev w)). q = p"
        using Cons by simp
      moreover have "returned key (ev # evs) w = returned key evs (step ev w)"
        using False unfolding returned_Cons by (cases ev) simp_all
      ultimately show ?thesis by simp
    qed
  qed
qed

lemma settled_step: "settled w n = Some out \<Longrightarrow> settled (step ev w) n = Some out"
proof (cases ev)
  case (GetOrCompute k compute)
  assume "settled w n = Some out"
  with GetOrCompute show ?thesis
    by (cases "entries w k") (auto simp: getOrCompute_hit getOrCompute_miss)
qed (auto simp: settle_def)

lemma settled_run: "settled w n = Some out \<Longrightarrow> settled (run evs w) n = Some out"
  by (induction evs arbitrary: w) (simp_all add: settled_step)

lemma observed_run: "observed w p = Some out \<Longrightarrow> observed (run evs w) p = Some out"
  by (cases p) (simp_all add: observed_def settled_run)

lemma settled_bound_step:
  "(\<forall>n. settled w n \<noteq> None \<longrightarrow> n < length (started w)) \<Longrightarrow>
   settled (step ev w) n \<noteq> None \<Longrightarrow> n < length (started (step ev w))"
proof (cases ev)
  case (GetOrCompute k compute)
  assume "\<forall>n. settled w n \<noteq> None \<longrightarrow> n < length (started w)" "settled (step ev w) n \<noteq> None"
  with GetOrCompute show ?thesis
    by (cases "entries w k") (auto simp: getOrCompute_hit getOrCompute_miss less_Suc_eq)
qed (auto simp: settle_def split: if_splits)

lemma settled_bound:
  "settled (run evs new_work) n \<noteq> None \<Longrightarrow> n < length (started (run evs new_work))"
proof (induction evs arbitrary: n rule: rev_induct)
  case Nil
  then show ?case by (simp add: new_work_def)
next
  case (snoc ev evs)
  have "\<forall>n. settled (run evs new_work) n \<noteq> None \<longrightarrow> n < length (started (run evs new_work))"
    using snoc.IH by blast
  then show ?case
    using snoc.prems by (simp add: run_append settled_bound_step)
qed

lemma settled_bound_run:
  "\<forall>m. settled w m \<noteq> None \<longrightarrow> m < length (started w) \<Longrightarrow>
   settled (run evs w) n \<noteq> None \<Longrightarrow> n < length (started (run evs w))"
proof (induction evs arbitrary: w)
  case Nil
  then show ?case by simp
next
  case (Cons ev evs)
  have b: "\<forall>m. settled (step ev w) m \<noteq> None \<longrightarrow> m < length (started (step ev w))"
    by (intro allI impI) (rule settled_bound_step [OF Cons.prems(1)])
  have "settled (run evs (step ev w)) n \<noteq> None"
    using Cons.prems(2) by simp
  then have "n < length (started (run evs (step ev w)))"
    by (rule Cons.IH [OF b])
  then show ?case
    by simp
qed

lemma replaces_removes: "\<not> replaces key ev \<Longrightarrow> \<not> removes key ev"
  by (cases ev) simp_all

lemmas work_eval = run_def getOrCompute_def settle_def new_work_def wc_fork_def wc_set_def
  wc_delete_def wc_clear_def invocations_def observed_def Let_def

section \<open>Properties of the traversal of the dependants\<close>

lemma cycle_graph_edges: "cycle_graph = [(''A'', ''B''), (''B'', ''C''), (''C'', ''A'')]"
  by (simp add: cycle_graph_def setDependencies_def)

lemma set_dependantsOf: "set (dependantsOf g x) = {d. (d, x) \<in> set g}"
  by (auto simp: dependantsOf_def image_iff)

lemma visit_mono: "set visited \<subseteq> set (visit g todo visited)"
  by (induction g todo visited rule: visit.induct) auto

lemma visit_todo: "set todo \<subseteq> set (visit g todo visited)"
proof (induction g todo visited rule: visit.induct)
  case (1 g visited)
  then show ?case by simp
next
  case (2 g x todo visited)
  show ?case
  proof (cases "x \<in> set visited")
    case True
    with 2 visit_mono [of visited g todo] show ?thesis by auto
  next
    case False
    have "x \<in> set (visit g (dependantsOf g x @ todo) (visited @ [x]))"
      using visit_mono [of "visited @ [x]" g "dependantsOf g x @ todo"] by auto
    with False 2 show ?thesis by auto
  qed
qed

lemma visit_distinct: "distinct visited \<Longrightarrow> distinct (visit g todo visited)"
  by (induction g todo visited rule: visit.induct) auto

text \<open>
  The traversal visits nothing but what the documents still to visit reach, and ends with a
  list that is closed under the reverse edges.
\<close>

lemma visit_sound:
  "set (visit g todo visited) \<subseteq> set visited \<union> {d. \<exists>x \<in> set todo. (d, x) \<in> (set g)\<^sup>*}"
proof (induction g todo visited rule: visit.induct)
  case (1 g visited)
  then show ?case by simp
next
  case (2 g x todo visited)
  show ?case
  proof (cases "x \<in> set visited")
    case True
    with 2 show ?thesis by auto
  next
    case False
    have step: "\<And>d y. y \<in> set (dependantsOf g x) \<Longrightarrow> (d, y) \<in> (set g)\<^sup>* \<Longrightarrow> (d, x) \<in> (set g)\<^sup>*"
      by (auto simp: set_dependantsOf intro: rtrancl_into_rtrancl)
    have "set (visit g (dependantsOf g x @ todo) (visited @ [x]))
            \<subseteq> set (visited @ [x]) \<union> {d. \<exists>y \<in> set (dependantsOf g x @ todo). (d, y) \<in> (set g)\<^sup>*}"
      using 2(2) [OF False] .
    also have "\<dots> \<subseteq> set visited \<union> {d. \<exists>y \<in> set (x # todo). (d, y) \<in> (set g)\<^sup>*}"
      using step by auto
    finally show ?thesis using False by simp
  qed
qed

lemma visit_closed:
  "\<forall>v \<in> set visited. set (dependantsOf g v) \<subseteq> set visited \<union> set todo \<Longrightarrow>
   \<forall>v \<in> set (visit g todo visited). set (dependantsOf g v) \<subseteq> set (visit g todo visited)"
proof (induction g todo visited rule: visit.induct)
  case (1 g visited)
  then show ?case by simp
next
  case (2 g x todo visited)
  show ?case
  proof (cases "x \<in> set visited")
    case True
    have "\<forall>v \<in> set visited. set (dependantsOf g v) \<subseteq> set visited \<union> set todo"
      using 2(3) True by auto
    with 2(1) [OF True] True show ?thesis by simp
  next
    case False
    have "\<forall>v \<in> set (visited @ [x]).
            set (dependantsOf g v) \<subseteq> set (visited @ [x]) \<union> set (dependantsOf g x @ todo)"
      using 2(3) by auto
    with 2(2) [OF False] False show ?thesis by simp
  qed
qed

lemma visit_complete:
  assumes "(d, x) \<in> (set g)\<^sup>*"
  shows "d \<in> set (visit g [x] [])"
  using assms
proof (induction rule: converse_rtrancl_induct)
  case base
  show ?case using visit_todo [of "[x]" g "[]"] by simp
next
  case (step y z)
  have "\<forall>v \<in> set (visit g [x] []). set (dependantsOf g v) \<subseteq> set (visit g [x] [])"
    by (rule visit_closed) simp
  with step show ?case by (auto simp: set_dependantsOf)
qed

lemma set_visit: "set (visit g [x] []) = {d. (d, x) \<in> (set g)\<^sup>*}"
  using visit_sound [of g "[x]" "[]"] visit_complete [of _ x g] by auto

section \<open>The heap operations, field by field\<close>

lemma AsyncWorkCache_delete_sel [simp]:
  "nextRef (AsyncWorkCache_delete c key h) = nextRef h"
  "maps (AsyncWorkCache_delete c key h) = maps h"
  "graphs (AsyncWorkCache_delete c key h) = graphs h"
  "workCaches (AsyncWorkCache_delete c key h) r k =
     (if r = c \<and> k = key then None else workCaches h r k)"
  by (simp_all add: AsyncWorkCache_delete_def wc_delete_def)

lemma AsyncWorkCache_clear_sel [simp]:
  "nextRef (AsyncWorkCache_clear c h) = nextRef h"
  "maps (AsyncWorkCache_clear c h) = maps h"
  "graphs (AsyncWorkCache_clear c h) = graphs h"
  "workCaches (AsyncWorkCache_clear c h) r k = (if r = c then None else workCaches h r k)"
  by (simp_all add: AsyncWorkCache_clear_def wc_clear_def)

lemma AsyncWorkCache_set_sel [simp]:
  "nextRef (AsyncWorkCache_set c key v h) = nextRef h"
  "maps (AsyncWorkCache_set c key v h) = maps h"
  "graphs (AsyncWorkCache_set c key v h) = graphs h"
  "workCaches (AsyncWorkCache_set c key v h) r k =
     (if r = c \<and> k = key then Some (Resolved v) else workCaches h r k)"
  by (simp_all add: AsyncWorkCache_set_def wc_set_def)

lemma AsyncWorkCache_set_entries_sel [simp]:
  "nextRef (AsyncWorkCache_set_entries m c h) = nextRef h"
  "maps (AsyncWorkCache_set_entries m c h) = maps h"
  "graphs (AsyncWorkCache_set_entries m c h) = graphs h"
  "workCaches (AsyncWorkCache_set_entries m c h) r k =
     (if r = c then (case maps h m k of Some v \<Rightarrow> Some (Resolved v) | None \<Rightarrow> workCaches h c k)
      else workCaches h r k)"
  by (simp_all add: AsyncWorkCache_set_entries_def wc_set_entries_def)

lemma Map_delete_sel [simp]:
  "nextRef (Map_delete m key h) = nextRef h"
  "workCaches (Map_delete m key h) = workCaches h"
  "graphs (Map_delete m key h) = graphs h"
  "maps (Map_delete m key h) r k = (if r = m \<and> k = key then None else maps h r k)"
  by (simp_all add: Map_delete_def)

lemma Map_set_sel [simp]:
  "nextRef (Map_set m key v h) = nextRef h"
  "workCaches (Map_set m key v h) = workCaches h"
  "graphs (Map_set m key v h) = graphs h"
  "maps (Map_set m key v h) r k = (if r = m \<and> k = key then Some v else maps h r k)"
  by (simp_all add: Map_set_def)

lemma fold_invalidate_dependant_nextRef [simp]:
  "nextRef (fold (invalidate_dependant nc) ds h) = nextRef h"
  by (induction ds arbitrary: h) (simp_all add: invalidate_dependant_def)

lemma fold_invalidate_dependant_graphs [simp]:
  "graphs (fold (invalidate_dependant nc) ds h) = graphs h"
  by (induction ds arbitrary: h) (simp_all add: invalidate_dependant_def)

lemma fold_invalidate_dependant_workCaches [simp]:
  "workCaches (fold (invalidate_dependant nc) ds h) r k =
     (if r = dependenciesScannedPromises nc \<and> k \<in> set ds then None else workCaches h r k)"
  by (induction ds arbitrary: h) (auto simp add: invalidate_dependant_def)

lemma fold_invalidate_dependant_maps [simp]:
  "maps (fold (invalidate_dependant nc) ds h) r k =
     (if r = analyzedDocuments nc \<and> k \<in> set ds then None else maps h r k)"
  by (induction ds arbitrary: h) (auto simp add: invalidate_dependant_def)

lemma invalidate_path_frame [simp]:
  "nextRef (invalidate_path this nc p h) = nextRef h"
  "graphs (invalidate_path this nc p h) = graphs h"
  by (simp_all add: invalidate_path_def Let_def)

lemma invalidate_path_maps:
  "maps (invalidate_path this nc p h) r k =
     (if (r = scannedDocuments nc \<and> k = p) \<or>
         (r = analyzedDocuments nc \<and>
            (k = p \<or> k \<in> set (getAllDependantsOf (graphs h (dependencyGraph this)) p)))
      then None else maps h r k)"
  by (auto simp add: invalidate_path_def Let_def)

lemma invalidate_path_workCaches:
  "workCaches (invalidate_path this nc p h) r k =
     (if r = analyzedDocumentPromises nc
      then map_option Resolved (maps (invalidate_path this nc p h) (analyzedDocuments nc) k)
      else if ((r = parsedDocumentPromises nc \<or> r = scannedDocumentPromises nc \<or>
                r = dependenciesScannedPromises nc) \<and> k = p) \<or>
              (r = dependenciesScannedPromises nc \<and>
                 k \<in> set (getAllDependantsOf (graphs h (dependencyGraph this)) p))
      then None else workCaches h r k)"
  by (auto simp add: invalidate_path_def Let_def split: option.splits)

lemma fold_invalidate_path_nextRef [simp]:
  "nextRef (fold (invalidate_path this nc) ps h) = nextRef h"
  by (induction ps arbitrary: h) simp_all

lemma fold_invalidate_path_graphs [simp]:
  "graphs (fold (invalidate_path this nc) ps h) = graphs h"
  by (induction ps arbitrary: h) simp_all

lemma fold_invalidate_path_maps:
  "maps (fold (invalidate_path this nc) ps h) r k =
     (if (r = scannedDocuments nc \<and> k \<in> set ps) \<or>
         (r = analyzedDocuments nc \<and> k \<in> stale (graphs h (dependencyGraph this)) ps)
      then None else maps h r k)"
  by (induction ps arbitrary: h) (auto simp: invalidate_path_maps stale_def)

lemma fold_invalidate_path_workCaches_analyzed:
  "ps \<noteq> [] \<Longrightarrow>
   workCaches (fold (invalidate_path this nc) ps h) (analyzedDocumentPromises nc) k =
     map_option Resolved (maps (fold (invalidate_path this nc) ps h) (analyzedDocuments nc) k)"
  by (induction ps rule: rev_induct) (simp_all add: invalidate_path_workCaches)

lemma fold_invalidate_path_workCaches_other:
  "r \<noteq> analyzedDocumentPromises nc \<Longrightarrow>
   workCaches (fold (invalidate_path this nc) ps h) r k =
     (if ((r = parsedDocumentPromises nc \<or> r = scannedDocumentPromises nc \<or>
           r = dependenciesScannedPromises nc) \<and> k \<in> set ps) \<or>
         (r = dependenciesScannedPromises nc \<and>
            k \<in> stale (graphs h (dependencyGraph this)) ps)
      then None else workCaches h r k)"
  by (induction ps arbitrary: h) (auto simp: invalidate_path_workCaches stale_def)

section \<open>The result of \<open>invalidate\<close>\<close>

lemma fst_DependencyGraph_invalidatePaths [simp]:
  "fst (DependencyGraph_invalidatePaths g paths h) = nextRef h"
  by (simp add: DependencyGraph_invalidatePaths_def Let_def)

lemma nextRef_DependencyGraph_invalidatePaths [simp]:
  "nextRef (snd (DependencyGraph_invalidatePaths g paths h)) = Suc (nextRef h)"
  by (simp add: DependencyGraph_invalidatePaths_def Let_def)

lemma fst_AnalysisCache_new:
  "fst (AnalysisCache_new (Some this) (Some g) h) =
     \<lparr>parsedDocumentPromises = nextRef h,
      scannedDocumentPromises = Suc (nextRef h),
      dependenciesScannedPromises = Suc (Suc (Suc (nextRef h))),
      analyzedDocumentPromises = Suc (Suc (nextRef h)),
      scannedDocuments = Suc (Suc (Suc (Suc (nextRef h)))),
      analyzedDocuments = Suc (Suc (Suc (Suc (Suc (nextRef h))))),
      dependencyGraph = g\<rparr>"
  by (simp add: AnalysisCache_new_def new_AsyncWorkCache_def new_Map_def Let_def)

lemma invalidate_eq:
  "invalidate this paths h =
     (forkedCache (nextRef h),
      fold (invalidate_path this (forkedCache (nextRef h))) paths (forked this paths h))"
  by (simp add: invalidate_def case_prod_beta Let_def forked_def forkedCache_def
      fst_AnalysisCache_new)

lemma forked_nextRef [simp]: "nextRef (forked this paths h) = nextRef h + 7"
  by (simp add: forked_def AnalysisCache_new_def
      DependencyGraph_invalidatePaths_def new_AsyncWorkCache_def new_Map_def Let_def)

lemma forked_graphs:
  "graphs (forked this paths h) r =
     (if r = nextRef h then invalidatePaths (graphs h (dependencyGraph this)) paths
      else graphs h r)"
  by (simp add: forked_def AnalysisCache_new_def
      DependencyGraph_invalidatePaths_def new_AsyncWorkCache_def new_Map_def Let_def)

lemma forked_workCaches:
  "allocated h this \<Longrightarrow>
   workCaches (forked this paths h) r =
     (if r = Suc (nextRef h) then workCaches h (parsedDocumentPromises this)
      else if r = Suc (Suc (nextRef h)) then workCaches h (scannedDocumentPromises this)
      else if r = Suc (Suc (Suc (nextRef h))) then workCaches h (analyzedDocumentPromises this)
      else if r = Suc (Suc (Suc (Suc (nextRef h))))
        then workCaches h (dependenciesScannedPromises this)
      else workCaches h r)"
  by (simp add: forked_def AnalysisCache_new_def allocated_def wc_fork_def
      DependencyGraph_invalidatePaths_def new_AsyncWorkCache_def new_Map_def Let_def)

lemma forked_maps:
  "allocated h this \<Longrightarrow>
   maps (forked this paths h) r =
     (if r = Suc (Suc (Suc (Suc (Suc (nextRef h))))) then maps h (scannedDocuments this)
      else if r = Suc (Suc (Suc (Suc (Suc (Suc (nextRef h))))))
        then maps h (analyzedDocuments this)
      else maps h r)"
  by (simp add: forked_def AnalysisCache_new_def allocated_def wc_fork_def
      DependencyGraph_invalidatePaths_def new_AsyncWorkCache_def new_Map_def Let_def)

lemma forked_old:
  "r < nextRef h \<Longrightarrow> workCaches (forked this paths h) r = workCaches h r"
  "r < nextRef h \<Longrightarrow> maps (forked this paths h) r = maps h r"
  "r < nextRef h \<Longrightarrow> graphs (forked this paths h) r = graphs h r"
  by (simp_all add: forked_def AnalysisCache_new_def allocated_def wc_fork_def
      DependencyGraph_invalidatePaths_def new_AsyncWorkCache_def new_Map_def Let_def)

lemma forked_this_graph:
  "allocated h this \<Longrightarrow> graphs (forked this paths h) (dependencyGraph this) = graphs h (dependencyGraph this)"
  by (simp add: forked_old allocated_def)

lemma forkedCache_sel [simp]:
  "parsedDocumentPromises (forkedCache n) = Suc n"
  "scannedDocumentPromises (forkedCache n) = Suc (Suc n)"
  "analyzedDocumentPromises (forkedCache n) = Suc (Suc (Suc n))"
  "dependenciesScannedPromises (forkedCache n) = Suc (Suc (Suc (Suc n)))"
  "scannedDocuments (forkedCache n) = Suc (Suc (Suc (Suc (Suc n))))"
  "analyzedDocuments (forkedCache n) = Suc (Suc (Suc (Suc (Suc (Suc n)))))"
  "dependencyGraph (forkedCache n) = n"
  by (simp_all add: forkedCache_def)

lemma invalidatePaths_Nil [simp]: "invalidatePaths g [] = g"
  by (simp add: invalidatePaths_def)

text \<open>\<open>invalidate\<close> writes to no object that exists before the call.\<close>

lemma invalidate_frame:
  assumes "invalidate this ids h = (newCache, h')"
    and "r < nextRef h"
  shows "workCaches h' r = workCaches h r \<and> maps h' r = maps h r \<and> graphs h' r = graphs h r"
proof -
  let ?nc = "forkedCache (nextRef h)"
  let ?h2 = "forked this ids h"
  have h': "h' = fold (invalidate_path this ?nc) ids ?h2"
    using assms(1) by (auto simp add: invalidate_eq)
  have w: "workCaches h' r = workCaches h r"
  proof
    fix k
    show "workCaches h' r k = workCaches h r k"
    proof (cases "ids = []")
      case True
      then show ?thesis using assms(2) by (simp add: h' forked_old)
    next
      case False
      have "r \<noteq> analyzedDocumentPromises ?nc" using assms(2) by simp
      then show ?thesis
        using assms(2) by (simp add: h' fold_invalidate_path_workCaches_other forked_old)
    qed
  qed
  have m: "maps h' r = maps h r"
    using assms(2) by (auto simp add: h' fold_invalidate_path_maps forked_old fun_eq_iff)
  have g: "graphs h' r = graphs h r"
    using assms(2) by (simp add: h' forked_old)
  from w m g show ?thesis by simp
qed

text \<open>The contents of the maps and work caches of the new cache, key by key.\<close>

lemma invalidate_analyzedDocuments:
  assumes "allocated h this" and "invalidate this paths h = (newCache, h')"
  shows "maps h' (analyzedDocuments newCache) k =
           (if k \<in> stale (graphs h (dependencyGraph this)) paths then None
            else maps h (analyzedDocuments this) k)"
proof -
  have nc: "newCache = forkedCache (nextRef h)"
    and h': "h' = fold (invalidate_path this (forkedCache (nextRef h))) paths (forked this paths h)"
    using assms(2) by (auto simp add: invalidate_eq)
  show ?thesis
    by (simp add: nc h' fold_invalidate_path_maps forked_this_graph [OF assms(1)]
        forked_maps [OF assms(1)])
qed

lemma invalidate_scannedDocuments:
  assumes "allocated h this" and "invalidate this paths h = (newCache, h')"
  shows "maps h' (scannedDocuments newCache) k =
           (if k \<in> set paths then None else maps h (scannedDocuments this) k)"
proof -
  have nc: "newCache = forkedCache (nextRef h)"
    and h': "h' = fold (invalidate_path this (forkedCache (nextRef h))) paths (forked this paths h)"
    using assms(2) by (auto simp add: invalidate_eq)
  show ?thesis
    by (simp add: nc h' fold_invalidate_path_maps forked_this_graph [OF assms(1)]
        forked_maps [OF assms(1)])
qed

lemma invalidate_scannedDocumentPromises:
  assumes "allocated h this" and "invalidate this paths h = (newCache, h')"
  shows "workCaches h' (scannedDocumentPromises newCache) k =
           (if k \<in> set paths then None else workCaches h (scannedDocumentPromises this) k)"
proof -
  have nc: "newCache = forkedCache (nextRef h)"
    and h': "h' = fold (invalidate_path this (forkedCache (nextRef h))) paths (forked this paths h)"
    using assms(2) by (auto simp add: invalidate_eq)
  show ?thesis
    by (simp add: nc h' fold_invalidate_path_workCaches_other forked_workCaches [OF assms(1)])
qed

lemma example_allocated: "allocated example_heap example_cache"
  by (simp add: allocated_def example_heap_def example_cache_def)

section \<open>The algorithm of the specification, field by field\<close>

lemma fold_spec_invalidate_dependant_nextRef [simp]:
  "nextRef (fold (spec_invalidate_dependant nx) ds h) = nextRef h"
  by (induction ds arbitrary: h) (simp_all add: spec_invalidate_dependant_def)

lemma fold_spec_invalidate_dependant_graphs [simp]:
  "graphs (fold (spec_invalidate_dependant nx) ds h) = graphs h"
  by (induction ds arbitrary: h) (simp_all add: spec_invalidate_dependant_def)

lemma fold_spec_invalidate_dependant_workCaches [simp]:
  "workCaches (fold (spec_invalidate_dependant nx) ds h) r k =
     (if (r = dependenciesScannedPromises nx \<or> r = analyzedDocumentPromises nx) \<and> k \<in> set ds
      then None else workCaches h r k)"
  by (induction ds arbitrary: h) (auto simp add: spec_invalidate_dependant_def)

lemma fold_spec_invalidate_dependant_maps [simp]:
  "maps (fold (spec_invalidate_dependant nx) ds h) r k =
     (if r = analyzedDocuments nx \<and> k \<in> set ds then None else maps h r k)"
  by (induction ds arbitrary: h) (auto simp add: spec_invalidate_dependant_def)

lemma spec_invalidate_id_frame [simp]:
  "nextRef (spec_invalidate_id this nx p h) = nextRef h"
  "graphs (spec_invalidate_id this nx p h) = graphs h"
  by (simp_all add: spec_invalidate_id_def Let_def)

lemma spec_invalidate_id_maps:
  "maps (spec_invalidate_id this nx p h) r k =
     (if (r = scannedDocuments nx \<and> k = p) \<or>
         (r = analyzedDocuments nx \<and>
            (k = p \<or> k \<in> set (getAllDependantsOf (graphs h (dependencyGraph this)) p)))
      then None else maps h r k)"
  by (auto simp add: spec_invalidate_id_def Let_def)

lemma spec_invalidate_id_workCaches:
  "workCaches (spec_invalidate_id this nx p h) r k =
     (if ((r = parsedDocumentPromises nx \<or> r = scannedDocumentPromises nx \<or>
           r = dependenciesScannedPromises nx \<or> r = analyzedDocumentPromises nx) \<and> k = p) \<or>
         ((r = dependenciesScannedPromises nx \<or> r = analyzedDocumentPromises nx) \<and>
            k \<in> set (getAllDependantsOf (graphs h (dependencyGraph this)) p))
      then None else workCaches h r k)"
  by (auto simp add: spec_invalidate_id_def Let_def)

lemma fold_spec_invalidate_id_nextRef [simp]:
  "nextRef (fold (spec_invalidate_id this nx) ps h) = nextRef h"
  by (induction ps arbitrary: h) simp_all

lemma fold_spec_invalidate_id_graphs [simp]:
  "graphs (fold (spec_invalidate_id this nx) ps h) = graphs h"
  by (induction ps arbitrary: h) simp_all

lemma fold_spec_invalidate_id_maps:
  "maps (fold (spec_invalidate_id this nx) ps h) r k =
     (if (r = scannedDocuments nx \<and> k \<in> set ps) \<or>
         (r = analyzedDocuments nx \<and> k \<in> stale (graphs h (dependencyGraph this)) ps)
      then None else maps h r k)"
  by (induction ps arbitrary: h) (auto simp: spec_invalidate_id_maps stale_def)

lemma fold_spec_invalidate_id_workCaches:
  "workCaches (fold (spec_invalidate_id this nx) ps h) r k =
     (if ((r = parsedDocumentPromises nx \<or> r = scannedDocumentPromises nx \<or>
           r = dependenciesScannedPromises nx \<or> r = analyzedDocumentPromises nx) \<and>
          k \<in> set ps) \<or>
         ((r = dependenciesScannedPromises nx \<or> r = analyzedDocumentPromises nx) \<and>
            k \<in> stale (graphs h (dependencyGraph this)) ps)
      then None else workCaches h r k)"
  by (induction ps arbitrary: h) (auto simp: spec_invalidate_id_workCaches stale_def)

lemma spec_invalidate_eq:
  "spec_invalidate this ids h =
     (forkedCache (nextRef h),
      AsyncWorkCache_set_entries (analyzedDocuments (forkedCache (nextRef h)))
        (analyzedDocumentPromises (forkedCache (nextRef h)))
        (AsyncWorkCache_clear (analyzedDocumentPromises (forkedCache (nextRef h)))
          (fold (spec_invalidate_id this (forkedCache (nextRef h))) ids (forked this ids h))))"
  by (simp add: spec_invalidate_def case_prod_beta Let_def forked_def forkedCache_def
      fst_AnalysisCache_new)

lemma heap_eqI:
  fixes h1 h2 :: "'v heap"
  assumes "nextRef h1 = nextRef h2"
    and "\<And>r k. workCaches h1 r k = workCaches h2 r k"
    and "\<And>r k. maps h1 r k = maps h2 r k"
    and "\<And>r. graphs h1 r = graphs h2 r"
  shows "h1 = h2"
proof (rule heap.equality)
  show "workCaches h1 = workCaches h2"
    using assms(2) by (intro ext)
  show "maps h1 = maps h2"
    using assms(3) by (intro ext)
  show "graphs h1 = graphs h2"
    using assms(4) by (intro ext)
qed (simp_all add: assms(1))

section \<open>Published mappings and work caches\<close>

text \<open>
  \<open>wc_set_entries\<close> is the loop over the entries of a \<^verbatim>\<open>Map\<close>: whatever the order in
  which the entries (with their distinct keys) are listed, calling \<open>set\<close> for each of them
  in turn gives the same work cache.
\<close>

lemma wc_set_entries_fold:
  "distinct (map fst xs) \<Longrightarrow>
   fold (\<lambda>kv. wc_set (fst kv) (snd kv)) xs es = wc_set_entries (map_of xs) es"
proof (induction xs arbitrary: es)
  case Nil
  then show ?case by (simp add: wc_set_entries_def)
next
  case (Cons kv xs)
  have "map_of xs (fst kv) = None"
    using Cons.prems by (simp add: map_of_eq_None_iff)
  then have last: "wc_set_entries (map_of xs) (wc_set (fst kv) (snd kv) es)
           = wc_set_entries (map_of (kv # xs)) es"
    by (cases kv) (auto simp: wc_set_entries_def wc_set_def fun_eq_iff split: option.splits)
  have "fold (\<lambda>kv. wc_set (fst kv) (snd kv)) (kv # xs) es
          = fold (\<lambda>kv. wc_set (fst kv) (snd kv)) xs (wc_set (fst kv) (snd kv) es)"
    by simp
  also have "\<dots> = wc_set_entries (map_of xs) (wc_set (fst kv) (snd kv) es)"
    using Cons.prems by (intro Cons.IH) simp
  finally show ?case
    using last by (simp only:)
qed

lemma invalidate_analyzedDocumentPromises:
  assumes "allocated h this" and "invalidate this paths h = (newCache, h')"
  shows "workCaches h' (analyzedDocumentPromises newCache) k =
           (if paths = [] then workCaches h (analyzedDocumentPromises this) k
            else map_option Resolved (maps h' (analyzedDocuments newCache) k))"
proof (cases "paths = []")
  case True
  with assms show ?thesis
    by (auto simp add: invalidate_eq forked_workCaches)
next
  case False
  have nc: "newCache = forkedCache (nextRef h)"
    and h': "h' = fold (invalidate_path this (forkedCache (nextRef h))) paths (forked this paths h)"
    using assms(2) by (auto simp add: invalidate_eq)
  have "workCaches h' (analyzedDocumentPromises newCache) k =
          map_option Resolved (maps h' (analyzedDocuments newCache) k)"
    unfolding nc h' by (rule fold_invalidate_path_workCaches_analyzed [OF False])
  with False show ?thesis by simp
qed

text \<open>\<open>invalidate\<close> keeps a mapping and a work cache that agree in agreement.\<close>

lemma invalidate_keeps_scanned_in_sync:
  assumes "allocated h this" and "invalidate this paths h = (newCache, h')"
    and "in_sync (maps h (scannedDocuments this)) (workCaches h (scannedDocumentPromises this))"
  shows "in_sync (maps h' (scannedDocuments newCache)) (workCaches h' (scannedDocumentPromises newCache))"
  using assms(3) unfolding in_sync_def
  by (simp add: invalidate_scannedDocuments [OF assms(1,2)]
      invalidate_scannedDocumentPromises [OF assms(1,2)] split: if_splits)

lemma invalidate_keeps_analyzed_in_sync:
  assumes "allocated h this" and "invalidate this paths h = (newCache, h')"
    and "in_sync (maps h (analyzedDocuments this)) (workCaches h (analyzedDocumentPromises this))"
  shows "in_sync (maps h' (analyzedDocuments newCache)) (workCaches h' (analyzedDocumentPromises newCache))"
proof (cases "paths = []")
  case True
  have "stale (graphs h (dependencyGraph this)) paths = {}"
    using True by (simp add: stale_def)
  then show ?thesis
    using assms(3) True unfolding in_sync_def
    by (simp add: invalidate_analyzedDocuments [OF assms(1,2)]
        invalidate_analyzedDocumentPromises [OF assms(1,2)])
next
  case False
  then show ?thesis
    unfolding in_sync_def
    by (auto simp add: invalidate_analyzedDocumentPromises [OF assms(1,2)])
qed

lemma unsynced_example_not_in_sync:
  "case unsynced_example of (c, h) \<Rightarrow>
     \<not> in_sync (maps h (scannedDocuments c)) (workCaches h (scannedDocumentPromises c))"
proof -
  obtain c h where ch: "unsynced_example = (c, h)"
    by (cases "unsynced_example :: AnalysisCache \<times> nat heap")
  have m: "maps h (scannedDocuments c) ''a'' = Some 2"
    using ch by (auto simp add: unsynced_example_def AnalysisCache_new_def new_AsyncWorkCache_def
        new_Map_def new_DependencyGraph_def empty_heap_def Let_def)
  have w: "workCaches h (scannedDocumentPromises c) ''a'' = Some (Resolved 1)"
    using ch by (auto simp add: unsynced_example_def AnalysisCache_new_def new_AsyncWorkCache_def
        new_Map_def new_DependencyGraph_def empty_heap_def Let_def)
  have "\<not> in_sync (maps h (scannedDocuments c)) (workCaches h (scannedDocumentPromises c))"
  proof
    assume "in_sync (maps h (scannedDocuments c)) (workCaches h (scannedDocumentPromises c))"
    from this [unfolded in_sync_def, rule_format, OF m w] show False by simp
  qed
  then show ?thesis
    by (simp add: ch)
qed

section \<open>The claims\<close>

text \<open>
  Claim C1. Let \<open>invalidate\<close> run on a receiver whose objects are allocated, and let
  \<open>p\<close> be one of the given paths or a dependant of one of them, the dependants being
  computed on the graph that the receiver has before the call. Then the new cache has no
  entry for \<open>p\<close> in the published analyzed mapping, none in the analyzed work cache
  and none in the dependencies-scanned work cache. (The dependencies-scanned stage has no
  published mapping.)
\<close>

theorem invalidate_removes_stale_results:
  assumes "allocated h this"
    and "invalidate this paths h = (newCache, h')"
    and "p \<in> stale (graphs h (dependencyGraph this)) paths"
  shows "maps h' (analyzedDocuments newCache) p = None \<and>
         workCaches h' (analyzedDocumentPromises newCache) p = None \<and>
         workCaches h' (dependenciesScannedPromises newCache) p = None"
proof -
  let ?nc = "forkedCache (nextRef h)"
  let ?h2 = "forked this paths h"
  have nc: "newCache = ?nc" and h': "h' = fold (invalidate_path this ?nc) paths ?h2"
    using assms(2) by (auto simp add: invalidate_eq)
  have g: "graphs ?h2 (dependencyGraph this) = graphs h (dependencyGraph this)"
    using assms(1) by (rule forked_this_graph)
  have ne: "paths \<noteq> []"
    using assms(3) by (auto simp: stale_def)
  have m: "maps h' (analyzedDocuments newCache) p = None"
    using assms(3) by (simp add: nc h' fold_invalidate_path_maps g)
  have "workCaches h' (analyzedDocumentPromises newCache) p =
          map_option Resolved (maps h' (analyzedDocuments newCache) p)"
    unfolding nc h' by (rule fold_invalidate_path_workCaches_analyzed [OF ne])
  then have a: "workCaches h' (analyzedDocumentPromises newCache) p = None"
    using m by simp
  have d: "workCaches h' (dependenciesScannedPromises newCache) p = None"
    using assms(3) by (simp add: nc h' fold_invalidate_path_workCaches_other g)
  from m a d show ?thesis by simp
qed

theorem invalidate_removes_stale_results_witness:
  "allocated example_heap example_cache \<and>
   ''A'' \<in> stale (graphs example_heap (dependencyGraph example_cache)) [''C''] \<and>
   (case invalidate example_cache [''C''] example_heap of (newCache, h') \<Rightarrow>
      maps h' (analyzedDocuments newCache) ''A'' = None \<and>
      workCaches h' (analyzedDocumentPromises newCache) ''A'' = None \<and>
      workCaches h' (dependenciesScannedPromises newCache) ''A'' = None)"
proof -
  have a: "allocated example_heap example_cache"
    by (simp add: allocated_def example_heap_def example_cache_def)
  have s: "''A'' \<in> stale (graphs example_heap (dependencyGraph example_cache)) [''C'']"
    by (simp add: stale_def example_heap_def example_cache_def example_graph_def
        getAllDependantsOf_def dependantsOf_def)
  obtain newCache h' where i: "invalidate example_cache [''C''] example_heap = (newCache, h')"
    by (cases "invalidate example_cache [''C''] example_heap")
  show ?thesis
    using a s invalidate_removes_stale_results [OF a i s] by (simp add: i)
qed

text \<open>
  Claim C2, amended. The source clears the analyzed work cache and fills it again from the
  published analyzed mapping at the end of every iteration of the loop over the paths, not
  once after the loop. On a list of ids that is not empty, \<open>invalidate\<close> returns the same
  cache and the same heap as the five steps of the specification, where that step runs once
  after the loop. On the empty list the loop body never runs: the analyzed work cache of the
  new cache is the copy of that of the receiver, promises of computations in progress
  included.
\<close>

theorem invalidate_refines_spec_on_nonempty:
  "(ids \<noteq> [] \<longrightarrow> invalidate this ids h = spec_invalidate this ids h) \<and>
   (allocated h this \<longrightarrow>
      (case invalidate this [] h of (newCache, h') \<Rightarrow>
         workCaches h' (analyzedDocumentPromises newCache) =
           workCaches h (analyzedDocumentPromises this)))"
proof (intro conjI impI)
  assume ne: "ids \<noteq> []"
  let ?nc = "forkedCache (nextRef h)"
  let ?code = "fold (invalidate_path this ?nc) ids (forked this ids h)"
  let ?loop = "fold (spec_invalidate_id this ?nc) ids (forked this ids h)"
  let ?spec = "AsyncWorkCache_set_entries (analyzedDocuments ?nc) (analyzedDocumentPromises ?nc)
                 (AsyncWorkCache_clear (analyzedDocumentPromises ?nc) ?loop)"
  have m: "\<And>r k. maps ?code r k = maps ?spec r k"
    by (simp add: fold_invalidate_path_maps fold_spec_invalidate_id_maps)
  have w: "workCaches ?code r k = workCaches ?spec r k" for r k
  proof (cases "r = analyzedDocumentPromises ?nc")
    case True
    have "workCaches ?code (analyzedDocumentPromises ?nc) k =
            map_option Resolved (maps ?code (analyzedDocuments ?nc) k)"
      by (rule fold_invalidate_path_workCaches_analyzed [OF ne])
    moreover have "workCaches ?spec (analyzedDocumentPromises ?nc) k =
            map_option Resolved (maps ?spec (analyzedDocuments ?nc) k)"
      by (simp split: option.splits)
    ultimately show ?thesis
      using m True by simp
  next
    case False
    have "workCaches ?code r k =
      (if ((r = parsedDocumentPromises ?nc \<or> r = scannedDocumentPromises ?nc \<or>
           r = dependenciesScannedPromises ?nc) \<and> k \<in> set ids) \<or>
         (r = dependenciesScannedPromises ?nc \<and>
            k \<in> stale (graphs (forked this ids h) (dependencyGraph this)) ids)
      then None else workCaches (forked this ids h) r k)"
      using False by (rule fold_invalidate_path_workCaches_other)
    moreover have "workCaches ?spec r k = workCaches ?loop r k"
      using False by simp
    ultimately show ?thesis
      using False by (simp add: fold_spec_invalidate_id_workCaches)
  qed
  have "?code = ?spec"
    by (rule heap_eqI) (simp_all add: m w)
  then show "invalidate this ids h = spec_invalidate this ids h"
    by (simp only: invalidate_eq spec_invalidate_eq)
next
  assume a: "allocated h this"
  show "case invalidate this [] h of (newCache, h') \<Rightarrow>
         workCaches h' (analyzedDocumentPromises newCache) =
           workCaches h (analyzedDocumentPromises this)"
    by (simp add: invalidate_eq forked_workCaches [OF a])
qed

theorem invalidate_refines_spec_on_nonempty_witness:
  "[''C''] \<noteq> [] \<and>
   invalidate example_cache [''C''] example_heap = spec_invalidate example_cache [''C''] example_heap \<and>
   allocated example_heap example_cache \<and>
   (case invalidate example_cache [] example_heap of (newCache, h') \<Rightarrow>
      workCaches h' (analyzedDocumentPromises newCache) ''B'' = Some (Deferred 2))"
proof -
  have old: "workCaches example_heap (analyzedDocumentPromises example_cache) ''B'' = Some (Deferred 2)"
    by (simp add: example_heap_def example_cache_def)
  obtain newCache h' where i: "invalidate example_cache [] example_heap = (newCache, h')"
    by (cases "invalidate example_cache [] example_heap")
  show ?thesis
    using example_allocated old invalidate_refines_spec_on_nonempty [of "[''C'']" example_cache example_heap]
      invalidate_refines_spec_on_nonempty [of "[]" example_cache example_heap]
    by (simp add: i)
qed

theorem invalidate_differs_from_spec_on_empty:
  "invalidate example_cache [] example_heap \<noteq> spec_invalidate example_cache [] example_heap"
proof
  assume eq: "invalidate example_cache [] example_heap = spec_invalidate example_cache [] example_heap"
  let ?nc = "forkedCache (nextRef example_heap)"
  have "workCaches (snd (invalidate example_cache [] example_heap)) (analyzedDocumentPromises ?nc) ''B''
          = Some (Deferred 2)"
    by (simp add: invalidate_eq forked_workCaches [OF example_allocated])
       (simp add: example_heap_def example_cache_def)
  moreover have "workCaches (snd (spec_invalidate example_cache [] example_heap))
          (analyzedDocumentPromises ?nc) ''B'' = None"
    by (simp add: spec_invalidate_eq forked_maps [OF example_allocated])
       (simp add: example_heap_def example_cache_def)
  ultimately show False
    using eq by simp
qed

text \<open>
  Claim C3. A document \<open>d\<close> that depends on one of the invalidated ids without being one
  of them loses its entries in the dependencies-scanned work cache, the analyzed work cache
  and the published analyzed mapping, and keeps the entries that the receiver has for it
  in the parsed work cache, the scanned work cache and the published scanned mapping.
\<close>

theorem invalidate_dependant_keeps_parse_and_scan:
  assumes "allocated h this"
    and "invalidate this ids h = (newCache, h')"
    and "q \<in> set ids"
    and "d \<in> set (getAllDependantsOf (graphs h (dependencyGraph this)) q)"
    and "d \<notin> set ids"
  shows "workCaches h' (dependenciesScannedPromises newCache) d = None \<and>
         workCaches h' (analyzedDocumentPromises newCache) d = None \<and>
         maps h' (analyzedDocuments newCache) d = None \<and>
         workCaches h' (parsedDocumentPromises newCache) d =
           workCaches h (parsedDocumentPromises this) d \<and>
         workCaches h' (scannedDocumentPromises newCache) d =
           workCaches h (scannedDocumentPromises this) d \<and>
         maps h' (scannedDocuments newCache) d = maps h (scannedDocuments this) d"
proof -
  let ?nc = "forkedCache (nextRef h)"
  let ?h2 = "forked this ids h"
  have nc: "newCache = ?nc" and h': "h' = fold (invalidate_path this ?nc) ids ?h2"
    using assms(2) by (auto simp add: invalidate_eq)
  have g: "graphs ?h2 (dependencyGraph this) = graphs h (dependencyGraph this)"
    using assms(1) by (rule forked_this_graph)
  have st: "d \<in> stale (graphs h (dependencyGraph this)) ids"
    using assms(3,4) by (auto simp: stale_def)
  have ne: "ids \<noteq> []"
    using assms(3) by auto
  have m: "maps h' (analyzedDocuments newCache) d = None"
    using st by (simp add: nc h' fold_invalidate_path_maps g)
  have "workCaches h' (analyzedDocumentPromises newCache) d =
          map_option Resolved (maps h' (analyzedDocuments newCache) d)"
    unfolding nc h' by (rule fold_invalidate_path_workCaches_analyzed [OF ne])
  then have a: "workCaches h' (analyzedDocumentPromises newCache) d = None"
    using m by simp
  have ds: "workCaches h' (dependenciesScannedPromises newCache) d = None"
    using st by (simp add: nc h' fold_invalidate_path_workCaches_other g)
  have p: "workCaches h' (parsedDocumentPromises newCache) d =
           workCaches h (parsedDocumentPromises this) d"
    using assms(5) by (simp add: nc h' fold_invalidate_path_workCaches_other
        forked_workCaches [OF assms(1)])
  have s: "workCaches h' (scannedDocumentPromises newCache) d =
           workCaches h (scannedDocumentPromises this) d"
    using assms(5) by (simp add: nc h' fold_invalidate_path_workCaches_other
        forked_workCaches [OF assms(1)])
  have sm: "maps h' (scannedDocuments newCache) d = maps h (scannedDocuments this) d"
    using assms(5) by (simp add: nc h' fold_invalidate_path_maps forked_maps [OF assms(1)])
  from m a ds p s sm show ?thesis by simp
qed

theorem invalidate_dependant_keeps_parse_and_scan_witness:
  "allocated example_heap example_cache \<and> ''C'' \<in> set [''C''] \<and>
   ''B'' \<in> set (getAllDependantsOf (graphs example_heap (dependencyGraph example_cache)) ''C'') \<and>
   ''B'' \<notin> set [''C''] \<and>
   (case invalidate example_cache [''C''] example_heap of (newCache, h') \<Rightarrow>
      workCaches h' (dependenciesScannedPromises newCache) ''B'' = None \<and>
      workCaches h' (analyzedDocumentPromises newCache) ''B'' = None \<and>
      maps h' (analyzedDocuments newCache) ''B'' = None \<and>
      workCaches h' (parsedDocumentPromises newCache) ''B'' = Some (Resolved 2) \<and>
      workCaches h' (scannedDocumentPromises newCache) ''B'' = Some (Resolved 12) \<and>
      maps h' (scannedDocuments newCache) ''B'' = Some 12)"
proof -
  have d: "''B'' \<in> set (getAllDependantsOf (graphs example_heap (dependencyGraph example_cache)) ''C'')"
    by (simp add: example_heap_def example_cache_def example_graph_def
        getAllDependantsOf_def dependantsOf_def)
  have q: "''C'' \<in> set [''C'']" and n: "''B'' \<notin> set [''C'']"
    by simp_all
  obtain newCache h' where i: "invalidate example_cache [''C''] example_heap = (newCache, h')"
    by (cases "invalidate example_cache [''C''] example_heap")
  have old: "workCaches example_heap (parsedDocumentPromises example_cache) ''B'' = Some (Resolved 2)"
    "workCaches example_heap (scannedDocumentPromises example_cache) ''B'' = Some (Resolved 12)"
    "maps example_heap (scannedDocuments example_cache) ''B'' = Some 12"
    by (simp_all add: example_heap_def example_cache_def)
  show ?thesis
    using example_allocated d invalidate_dependant_keeps_parse_and_scan [OF example_allocated i q d n] by (simp add: i old)
qed

text \<open>
  Claim C4. \<open>invalidate\<close> on the empty list returns a cache whose four work caches, two
  published mappings and dependency graph have the contents of those of the receiver.
\<close>

theorem invalidate_empty_is_identity:
  assumes "allocated h this"
    and "invalidate this [] h = (newCache, h')"
  shows "workCaches h' (parsedDocumentPromises newCache) = workCaches h (parsedDocumentPromises this) \<and>
         workCaches h' (scannedDocumentPromises newCache) = workCaches h (scannedDocumentPromises this) \<and>
         workCaches h' (dependenciesScannedPromises newCache) =
           workCaches h (dependenciesScannedPromises this) \<and>
         workCaches h' (analyzedDocumentPromises newCache) =
           workCaches h (analyzedDocumentPromises this) \<and>
         maps h' (scannedDocuments newCache) = maps h (scannedDocuments this) \<and>
         maps h' (analyzedDocuments newCache) = maps h (analyzedDocuments this) \<and>
         graphs h' (dependencyGraph newCache) = graphs h (dependencyGraph this)"
  using assms(2)
  by (auto simp add: invalidate_eq forked_workCaches [OF assms(1)] forked_maps [OF assms(1)]
      forked_graphs)

theorem invalidate_empty_is_identity_witness:
  "allocated example_heap example_cache \<and>
   (case invalidate example_cache [] example_heap of (newCache, h') \<Rightarrow>
      workCaches h' (analyzedDocumentPromises newCache) ''B'' = Some (Deferred 2) \<and>
      maps h' (analyzedDocuments newCache) ''B'' = None \<and>
      graphs h' (dependencyGraph newCache) = example_graph)"
proof -
  obtain newCache h' where i: "invalidate example_cache [] example_heap = (newCache, h')"
    by (cases "invalidate example_cache [] example_heap")
  have old: "workCaches example_heap (analyzedDocumentPromises example_cache) ''B'' = Some (Deferred 2)"
    "maps example_heap (analyzedDocuments example_cache) ''B'' = None"
    "graphs example_heap (dependencyGraph example_cache) = example_graph"
    by (simp_all add: example_heap_def example_cache_def)
  show ?thesis
    using example_allocated invalidate_empty_is_identity [OF example_allocated i] by (simp add: i old)
qed

text \<open>
  Claim C5. \<open>invalidate\<close> does not change its receiver. The four work caches, the two
  mappings and the graph of the receiver have the same content after the call, so every
  query on them, \<open>getAllDependantsOf\<close> included, answers as before. More generally no
  object that exists before the call is written, and the seven objects of the new cache
  are all allocated by the call, so that nothing done to them shows through the receiver.
  (The fields of the receiver themselves are assigned by the constructor only.)
\<close>

theorem invalidate_leaves_receiver_unchanged:
  assumes "allocated h this"
    and "invalidate this ids h = (newCache, h')"
  shows "workCaches h' (parsedDocumentPromises this) = workCaches h (parsedDocumentPromises this) \<and>
         workCaches h' (scannedDocumentPromises this) = workCaches h (scannedDocumentPromises this) \<and>
         workCaches h' (dependenciesScannedPromises this) =
           workCaches h (dependenciesScannedPromises this) \<and>
         workCaches h' (analyzedDocumentPromises this) =
           workCaches h (analyzedDocumentPromises this) \<and>
         maps h' (scannedDocuments this) = maps h (scannedDocuments this) \<and>
         maps h' (analyzedDocuments this) = maps h (analyzedDocuments this) \<and>
         graphs h' (dependencyGraph this) = graphs h (dependencyGraph this) \<and>
         (\<forall>p. getAllDependantsOf (graphs h' (dependencyGraph this)) p =
              getAllDependantsOf (graphs h (dependencyGraph this)) p) \<and>
         (\<forall>r. r < nextRef h \<longrightarrow>
              workCaches h' r = workCaches h r \<and> maps h' r = maps h r \<and>
              graphs h' r = graphs h r) \<and>
         nextRef h \<le> parsedDocumentPromises newCache \<and>
         nextRef h \<le> scannedDocumentPromises newCache \<and>
         nextRef h \<le> dependenciesScannedPromises newCache \<and>
         nextRef h \<le> analyzedDocumentPromises newCache \<and>
         nextRef h \<le> scannedDocuments newCache \<and>
         nextRef h \<le> analyzedDocuments newCache \<and>
         nextRef h \<le> dependencyGraph newCache"
proof -
  note frame = invalidate_frame [OF assms(2)]
  have old: "\<forall>r. r < nextRef h \<longrightarrow>
              workCaches h' r = workCaches h r \<and> maps h' r = maps h r \<and>
              graphs h' r = graphs h r"
    using frame by blast
  have nc: "newCache = forkedCache (nextRef h)"
    using assms(2) by (auto simp add: invalidate_eq)
  have fresh: "nextRef h \<le> parsedDocumentPromises newCache \<and>
         nextRef h \<le> scannedDocumentPromises newCache \<and>
         nextRef h \<le> dependenciesScannedPromises newCache \<and>
         nextRef h \<le> analyzedDocumentPromises newCache \<and>
         nextRef h \<le> scannedDocuments newCache \<and>
         nextRef h \<le> analyzedDocuments newCache \<and>
         nextRef h \<le> dependencyGraph newCache"
    by (simp add: nc)
  have mine: "workCaches h' (parsedDocumentPromises this) = workCaches h (parsedDocumentPromises this)"
    "workCaches h' (scannedDocumentPromises this) = workCaches h (scannedDocumentPromises this)"
    "workCaches h' (dependenciesScannedPromises this) =
           workCaches h (dependenciesScannedPromises this)"
    "workCaches h' (analyzedDocumentPromises this) =
           workCaches h (analyzedDocumentPromises this)"
    "maps h' (scannedDocuments this) = maps h (scannedDocuments this)"
    "maps h' (analyzedDocuments this) = maps h (analyzedDocuments this)"
    "graphs h' (dependencyGraph this) = graphs h (dependencyGraph this)"
    using assms(1) frame by (simp_all add: allocated_def)
  show ?thesis
    using mine old fresh by simp
qed

theorem invalidate_leaves_receiver_unchanged_witness:
  "allocated example_heap example_cache \<and>
   (case invalidate example_cache [''C''] example_heap of (newCache, h') \<Rightarrow>
      maps h' (analyzedDocuments example_cache) ''A'' = Some 21 \<and>
      maps h' (analyzedDocuments newCache) ''A'' = None \<and>
      workCaches h' (analyzedDocumentPromises example_cache) ''B'' = Some (Deferred 2) \<and>
      graphs h' (dependencyGraph example_cache) = example_graph)"
proof -
  have s: "''A'' \<in> stale (graphs example_heap (dependencyGraph example_cache)) [''C'']"
    by (simp add: stale_def example_heap_def example_cache_def example_graph_def
        getAllDependantsOf_def dependantsOf_def)
  obtain newCache h' where i: "invalidate example_cache [''C''] example_heap = (newCache, h')"
    by (cases "invalidate example_cache [''C''] example_heap")
  have old: "maps example_heap (analyzedDocuments example_cache) ''A'' = Some 21"
    "workCaches example_heap (analyzedDocumentPromises example_cache) ''B'' = Some (Deferred 2)"
    "graphs example_heap (dependencyGraph example_cache) = example_graph"
    by (simp_all add: example_heap_def example_cache_def)
  have new: "maps h' (analyzedDocuments newCache) ''A'' = None"
    using s by (simp add: invalidate_analyzedDocuments [OF example_allocated i])
  show ?thesis
    using example_allocated old new invalidate_leaves_receiver_unchanged [OF example_allocated i] by (simp add: i)
qed

text \<open>
  Claim C6, amended. Take any state of a work cache and any sequence of events (operations
  on the cache and completions of computations) in which no \<open>delete(key)\<close> and no
  \<open>clear()\<close> occurs. Then a compute function is invoked for \<open>key\<close> at most once in the
  sequence, and not at all when \<open>key\<close> has an entry at the start. Every
  \<open>getOrCompute(key, compute)\<close> of the sequence that finds an entry returns that very entry
  and leaves the cache as it is, so \<open>compute\<close> is not invoked; and the outcome that a
  promise has delivered never changes. If moreover no \<open>set(key, v)\<close> occurs, which would
  put another entry in the place of the registered one, then all callers get one and the
  same promise, also before the computation settles, and so observe the same outcome.
  Without that condition they need not: in \<open>example_replaced\<close> the first caller gets the
  promise of the computation and the second the value that was set in between.
\<close>

theorem getOrCompute_at_most_once:
  assumes "\<forall>ev \<in> set evs. \<not> removes key ev"
  shows "invocations key (run evs w) \<le> invocations key w + 1 \<and>
         (entries w key \<noteq> None \<longrightarrow> invocations key (run evs w) = invocations key w) \<and>
         (\<forall>pre compute post p. evs = pre @ GetOrCompute key compute # post \<longrightarrow>
            entries (run pre w) key = Some p \<longrightarrow>
            getOrCompute key compute (run pre w) = (p, run pre w)) \<and>
         ((\<forall>ev \<in> set evs. \<not> replaces key ev) \<longrightarrow>
            (\<exists>p. \<forall>q \<in> set (returned key evs w). q = p)) \<and>
         (\<forall>p out. observed w p = Some out \<longrightarrow> observed (run evs w) p = Some out)"
proof -
  have "invocations key (run evs w) \<le> invocations key w + 1"
    using assms by (rule run_at_most_one_invocation)
  moreover have "entries w key \<noteq> None \<longrightarrow> invocations key (run evs w) = invocations key w"
    using assms by (simp add: run_no_invocation)
  moreover have "\<forall>pre compute post p. evs = pre @ GetOrCompute key compute # post \<longrightarrow>
            entries (run pre w) key = Some p \<longrightarrow>
            getOrCompute key compute (run pre w) = (p, run pre w)"
    by (simp add: getOrCompute_hit)
  moreover have "(\<forall>ev \<in> set evs. \<not> replaces key ev) \<longrightarrow>
            (\<exists>p. \<forall>q \<in> set (returned key evs w). q = p)"
    using returned_all_equal [of evs key w] by blast
  moreover have "\<forall>p out. observed w p = Some out \<longrightarrow> observed (run evs w) p = Some out"
    by (simp add: observed_run)
  ultimately show ?thesis
    by blast
qed

theorem getOrCompute_at_most_once_witness:
  "list_all (\<lambda>ev. \<not> removes ''k'' ev) example_requests \<and>
   invocations ''k'' (run example_requests new_work) = 1 \<and>
   returned ''k'' example_requests new_work = [Deferred 0, Deferred 0, Deferred 0] \<and>
   observed (run example_requests new_work) (Deferred 0) = Some (Success 5)"
proof -
  have h: "\<forall>ev \<in> set example_requests. \<not> removes ''k'' ev"
    by (simp add: example_requests_def)
  have i: "invocations ''k'' (run example_requests new_work) = 1"
    by (simp add: example_requests_def work_eval)
  have r: "returned ''k'' example_requests new_work = [Deferred 0, Deferred 0, Deferred 0]"
    by (simp add: example_requests_def work_eval)
  have ob: "observed (run example_requests new_work) (Deferred 0) = Some (Success 5)"
    by (simp add: example_requests_def work_eval)
  have l: "list_all (\<lambda>ev. \<not> removes ''k'' ev) example_requests"
    using h by (simp add: list_all_iff)
  have "invocations ''k'' (run example_requests new_work)
          \<le> invocations ''k'' (new_work :: (string, nat, string) work) + 1"
    by (rule getOrCompute_at_most_once [OF h, of new_work, THEN conjunct1])
  then show ?thesis
    using l i r ob by simp
qed

theorem getOrCompute_callers_differ_after_set:
  "\<not> list_ex (removes ''k'') example_replaced \<and>
   returned ''k'' example_replaced new_work = [Deferred 0, Resolved 7] \<and>
   invocations ''k'' (run example_replaced new_work) = 1 \<and>
   observed (run example_replaced new_work) (Deferred 0) = Some (Success 5) \<and>
   observed (run example_replaced new_work) (Resolved 7) = Some (Success 7)"
  by (simp add: example_replaced_def work_eval)

text \<open>
  Claim C7, amended. Let the computation started for \<open>key\<close> have failed with \<open>e\<close>, in a
  cache where every settled computation is one that was started (as in every cache that
  evolved from an empty one). After any events that neither remove the entry of \<open>key\<close>
  (\<open>delete(key)\<close>, \<open>clear()\<close>) nor replace it (\<open>set(key, v)\<close>), \<open>getOrCompute(key, f2)\<close>
  returns the promise of the failed computation, which still delivers the failure \<open>e\<close>,
  and changes nothing: \<open>f2\<close> is not invoked, and no compute function has been invoked for
  \<open>key\<close> in between. After \<open>delete(key)\<close>, \<open>getOrCompute(key, f2)\<close> starts afresh: it
  invokes \<open>f2\<close> and registers and returns a new promise, which is not the failed one and
  has delivered nothing yet. The failure does not last until \<open>delete(key)\<close> only: after
  \<open>clear()\<close> the next request invokes its compute function, and after \<open>set(key, v)\<close> it
  returns the value that was set.
\<close>

theorem getOrCompute_failure_is_sticky:
  assumes "entries w key = Some (Deferred n)"
    and "settled w n = Some (Failure e)"
    and "\<forall>m. settled w m \<noteq> None \<longrightarrow> m < length (started w)"
    and "\<forall>ev \<in> set evs. \<not> replaces key ev"
  shows "getOrCompute key f2 (run evs w) = (Deferred n, run evs w) \<and>
         observed (run evs w) (Deferred n) = Some (Failure e) \<and>
         invocations key (run evs w) = invocations key w \<and>
         (case getOrCompute key f2 (step (Delete key) (run evs w)) of (p, w') \<Rightarrow>
            p \<noteq> Deferred n \<and> observed w' p = None \<and> entries w' key = Some p \<and>
            started w' = started (run evs w) @ [(key, f2)] \<and>
            invocations key w' = invocations key (run evs w) + 1)"
proof -
  let ?w = "run evs w"
  have entry: "entries ?w key = Some (Deferred n)"
    using assms(4,1) by (rule run_same_entry)
  have failed: "settled ?w n = Some (Failure e)"
    using assms(2) by (rule settled_run)
  have bound: "\<And>m. settled ?w m \<noteq> None \<Longrightarrow> m < length (started ?w)"
    using assms(3) by (rule settled_bound_run)
  have n: "n < length (started ?w)"
    using failed bound by simp
  have fresh: "settled ?w (length (started ?w)) = None"
    using bound [of "length (started ?w)"] by (cases "settled ?w (length (started ?w))") auto
  have gone: "entries (step (Delete key) ?w) key = None"
    by (simp add: wc_delete_def)
  have hit: "getOrCompute key f2 ?w = (Deferred n, ?w)"
    using entry by (rule getOrCompute_hit)
  have obs: "observed ?w (Deferred n) = Some (Failure e)"
    using failed by (simp add: observed_def)
  have kept: "\<forall>ev \<in> set evs. \<not> removes key ev"
  proof
    fix ev
    assume "ev \<in> set evs"
    with assms(4) have "\<not> replaces key ev"
      by (rule bspec)
    then show "\<not> removes key ev"
      by (rule replaces_removes)
  qed
  have "entries w key \<noteq> None"
    using assms(1) by simp
  with kept have inv: "invocations key ?w = invocations key w"
    by (rule run_no_invocation)
  have again: "(case getOrCompute key f2 (step (Delete key) ?w) of (p, w') \<Rightarrow>
            p \<noteq> Deferred n \<and> observed w' p = None \<and> entries w' key = Some p \<and>
            started w' = started ?w @ [(key, f2)] \<and>
            invocations key w' = invocations key ?w + 1)"
    unfolding getOrCompute_miss [OF gone] using n fresh
    by (simp add: observed_def invocations_def)
  show ?thesis
    by (intro conjI hit obs inv again)
qed

theorem getOrCompute_failure_is_sticky_witness:
  "entries (run example_failure new_work) ''k'' = Some (Deferred 0) \<and>
   settled (run example_failure new_work) 0 = Some (Failure ''boom'') \<and>
   list_all (\<lambda>ev. \<not> replaces ''k'' ev) [GetOrCompute ''j'' ''h'', GetOrCompute ''k'' ''g''] \<and>
   getOrCompute ''k'' ''f2''
     (run [GetOrCompute ''j'' ''h'', GetOrCompute ''k'' ''g''] (run example_failure new_work)) =
     (Deferred 0, run [GetOrCompute ''j'' ''h'', GetOrCompute ''k'' ''g''] (run example_failure new_work)) \<and>
   invocations ''k''
     (run [GetOrCompute ''j'' ''h'', GetOrCompute ''k'' ''g''] (run example_failure new_work)) = 1"
proof -
  let ?w = "run example_failure new_work"
  let ?evs = "[GetOrCompute ''j'' ''h'', GetOrCompute ''k'' ''g''] :: (string, nat, string) event list"
  have e: "entries ?w ''k'' = Some (Deferred 0)"
    by (simp add: example_failure_def work_eval)
  have s: "settled ?w 0 = Some (Failure ''boom'')"
    by (simp add: example_failure_def work_eval)
  have b: "\<forall>m. settled ?w m \<noteq> None \<longrightarrow> m < length (started ?w)"
    using settled_bound [of example_failure] by blast
  have k: "\<forall>ev \<in> set ?evs. \<not> replaces ''k'' ev"
    by simp
  have i: "invocations ''k'' ?w = 1"
    by (simp add: example_failure_def work_eval)
  show ?thesis
    using e s k i getOrCompute_failure_is_sticky [OF e s b k, of "''f2''"] by simp
qed

theorem getOrCompute_failure_ends_without_delete:
  "entries (run example_failure new_work) ''k'' = Some (Deferred 0) \<and>
   observed (run example_failure new_work) (Deferred 0) = Some (Failure ''boom'') \<and>
   \<not> list_ex (deletes ''k'') [Clear] \<and>
   fst (getOrCompute ''k'' ''f2'' (run [Clear] (run example_failure new_work))) = Deferred 1 \<and>
   started (snd (getOrCompute ''k'' ''f2'' (run [Clear] (run example_failure new_work)))) =
     [(''k'', ''f''), (''k'', ''f2'')] \<and>
   \<not> list_ex (deletes ''k'') [Set ''k'' 9] \<and>
   fst (getOrCompute ''k'' ''f2'' (run [Set ''k'' 9] (run example_failure new_work))) = Resolved 9"
  by (simp add: example_failure_def work_eval)

text \<open>
  Claim C8. \<open>getAllDependantsOf\<close> is a total function (the traversal terminates on every
  graph, cyclic or not). Its result lists exactly the documents from which a path of one or
  more edges leads to \<open>ident\<close>, that is the documents reached from \<open>ident\<close> by following
  reverse edges, without \<open>ident\<close> itself and each of them once. On the graph with the
  edges \<open>A \<rightarrow> B\<close>, \<open>B \<rightarrow> C\<close>, \<open>C \<rightarrow> A\<close> the dependants of \<open>A\<close> are \<open>B\<close> and \<open>C\<close>.
\<close>

theorem getAllDependantsOf_reachable:
  "set (getAllDependantsOf g ident) = {d. (d, ident) \<in> (set g)\<^sup>+} - {ident} \<and>
   distinct (getAllDependantsOf g ident) \<and>
   set (getAllDependantsOf cycle_graph ''A'') = {''B'', ''C''}"
proof -
  have "set (getAllDependantsOf g ident) = {d. (d, ident) \<in> (set g)\<^sup>*} - {ident}"
    by (simp only: getAllDependantsOf_def set_removeAll set_visit)
  also have "\<dots> = {d. (d, ident) \<in> (set g)\<^sup>+} - {ident}"
    by (auto simp: rtrancl_eq_or_trancl)
  finally have s: "set (getAllDependantsOf g ident) = {d. (d, ident) \<in> (set g)\<^sup>+} - {ident}" .
  have d: "distinct (getAllDependantsOf g ident)"
    unfolding getAllDependantsOf_def by (intro distinct_removeAll visit_distinct) simp
  have e: "getAllDependantsOf cycle_graph ''A'' = [''C'', ''B'']"
    by (simp add: cycle_graph_edges getAllDependantsOf_def dependantsOf_def)
  from s d e show ?thesis by auto
qed

theorem getAllDependantsOf_reachable_witness:
  "set (getAllDependantsOf cycle_graph ''C'') = {''A'', ''B''} \<and>
   {d. (d, ''C'') \<in> (set cycle_graph)\<^sup>+} - {''C''} = {''A'', ''B''}"
proof -
  have "getAllDependantsOf cycle_graph ''C'' = [''B'', ''A'']"
    by (simp add: cycle_graph_edges getAllDependantsOf_def dependantsOf_def)
  then show ?thesis
    using getAllDependantsOf_reachable [of cycle_graph "''C''"] by auto
qed

text \<open>
  Claim C9 does not hold of the class. In \<open>unsynced_example\<close> the document \<open>a\<close> has the
  value \<open>2\<close> in the published scanned mapping and a promise resolved with \<open>1\<close> in the
  scanned work cache; \<open>invalidate\<close> on another document copies both into the cache that it
  returns. (\<open>invalidate\<close> itself never makes an agreeing pair disagree: see
  \<open>invalidate_keeps_scanned_in_sync\<close> and \<open>invalidate_keeps_analyzed_in_sync\<close>.)
\<close>

theorem published_mapping_out_of_sync:
  "(case unsynced_example of (c, h) \<Rightarrow>
      allocated h c \<and>
      maps h (scannedDocuments c) ''a'' = Some 2 \<and>
      workCaches h (scannedDocumentPromises c) ''a'' = Some (Resolved 1) \<and>
      (case invalidate c [''b''] h of (c', h') \<Rightarrow>
         maps h' (scannedDocuments c') ''a'' = Some 2 \<and>
         workCaches h' (scannedDocumentPromises c') ''a'' = Some (Resolved 1)))"
proof -
  obtain c h where ch: "unsynced_example = (c, h)"
    by (cases "unsynced_example :: AnalysisCache \<times> nat heap")
  have c: "c = \<lparr>parsedDocumentPromises = 0, scannedDocumentPromises = 1,
      dependenciesScannedPromises = 3, analyzedDocumentPromises = 2,
      scannedDocuments = 4, analyzedDocuments = 5, dependencyGraph = 6\<rparr>"
    using ch by (auto simp add: unsynced_example_def AnalysisCache_new_def new_AsyncWorkCache_def
        new_Map_def new_DependencyGraph_def empty_heap_def Let_def)
  have n: "nextRef h = 7"
    using ch by (auto simp add: unsynced_example_def AnalysisCache_new_def new_AsyncWorkCache_def
        new_Map_def new_DependencyGraph_def empty_heap_def Let_def)
  have m: "maps h (scannedDocuments c) ''a'' = Some 2"
    using ch by (auto simp add: unsynced_example_def AnalysisCache_new_def new_AsyncWorkCache_def
        new_Map_def new_DependencyGraph_def empty_heap_def Let_def)
  have w: "workCaches h (scannedDocumentPromises c) ''a'' = Some (Resolved 1)"
    using ch by (auto simp add: unsynced_example_def AnalysisCache_new_def new_AsyncWorkCache_def
        new_Map_def new_DependencyGraph_def empty_heap_def Let_def)
  have a: "allocated h c"
    by (simp add: allocated_def c n)
  obtain c' h' where i: "invalidate c [''b''] h = (c', h')"
    by (cases "invalidate c [''b''] h")
  have m': "maps h' (scannedDocuments c') ''a'' = Some 2"
    using m by (simp add: invalidate_scannedDocuments [OF a i])
  have w': "workCaches h' (scannedDocumentPromises c') ''a'' = Some (Resolved 1)"
    using w by (simp add: invalidate_scannedDocumentPromises [OF a i])
  show ?thesis
    using a m w m' w' by (simp add: ch i)
qed

text \<open>
  Claim C10. After \<open>invalidate\<close> on a list that is not empty, the analyzed work cache of
  the new cache holds, for every document, the resolved promise of the value that the
  published analyzed mapping holds, and nothing where the mapping holds nothing: the two
  have the same keys, and no promise of a computation started earlier is left.
\<close>

theorem invalidate_analyzed_cache_matches_mapping:
  assumes "invalidate this ids h = (newCache, h')"
    and "ids \<noteq> []"
  shows "(\<forall>k. workCaches h' (analyzedDocumentPromises newCache) k =
              map_option Resolved (maps h' (analyzedDocuments newCache) k)) \<and>
         dom (workCaches h' (analyzedDocumentPromises newCache)) =
           dom (maps h' (analyzedDocuments newCache)) \<and>
         (\<forall>k n. workCaches h' (analyzedDocumentPromises newCache) k \<noteq> Some (Deferred n))"
proof -
  let ?nc = "forkedCache (nextRef h)"
  have nc: "newCache = ?nc" and h': "h' = fold (invalidate_path this ?nc) ids (forked this ids h)"
    using assms(1) by (auto simp add: invalidate_eq)
  have eq: "\<And>k. workCaches h' (analyzedDocumentPromises newCache) k =
              map_option Resolved (maps h' (analyzedDocuments newCache) k)"
    unfolding nc h' by (rule fold_invalidate_path_workCaches_analyzed [OF assms(2)])
  have "dom (workCaches h' (analyzedDocumentPromises newCache)) =
           dom (maps h' (analyzedDocuments newCache))"
    by (auto simp: eq dom_def)
  moreover have "\<And>k n. workCaches h' (analyzedDocumentPromises newCache) k \<noteq> Some (Deferred n)"
    by (auto simp: eq)
  ultimately show ?thesis using eq by blast
qed

theorem invalidate_analyzed_cache_matches_mapping_witness:
  "[''B''] \<noteq> [] \<and>
   (case invalidate example_cache [''B''] example_heap of (newCache, h') \<Rightarrow>
      maps h' (analyzedDocuments newCache) ''C'' = Some 23 \<and>
      workCaches h' (analyzedDocumentPromises newCache) ''C'' = Some (Resolved 23))"
proof -
  have ne: "[''B''] \<noteq> ([] :: doc_id list)"
    by simp
  obtain newCache h' where i: "invalidate example_cache [''B''] example_heap = (newCache, h')"
    by (cases "invalidate example_cache [''B''] example_heap")
  have "''C'' \<notin> stale (graphs example_heap (dependencyGraph example_cache)) [''B'']"
    by (simp add: stale_def example_heap_def example_cache_def example_graph_def
        getAllDependantsOf_def dependantsOf_def)
  then have m: "maps h' (analyzedDocuments newCache) ''C'' = Some 23"
    by (simp add: invalidate_analyzedDocuments [OF example_allocated i])
       (simp add: example_heap_def example_cache_def)
  show ?thesis
    using ne m invalidate_analyzed_cache_matches_mapping [OF i ne] by (simp add: i)
qed

end
